theory Spec2Isabelle
  imports Complex_Main
begin

section \<open>Data model (src/lib/types.ts)\<close>

text \<open>
  A \<^verbatim>\<open>ChatNode\<close> is one prompt/response exchange. The TypeScript field \<^verbatim>\<open>id\<close> is
  written \<open>id'\<close> (HOL already has a constant of that name); \<^verbatim>\<open>parentId: string | null\<close>
  is a \<open>string option\<close>; the union of string literals \<^verbatim>\<open>"imported" | "generated"\<close> is a
  datatype.
\<close>

datatype node_source = imported | generated

record ChatNode =
  id' :: string
  prompt :: string
  response :: string
  parentId :: "string option"
  childIds :: "string list"
  source :: node_source

record UserInfo =
  name :: string
  email :: string

record Dates =
  created :: string
  updated :: string
  exported :: string

record ConversationMetadata =
  title :: string
  user :: UserInfo
  dates :: Dates

text \<open>
  \<^verbatim>\<open>Record<string, ChatNode>\<close> is a finite map from ids to nodes. No function of the
  repository iterates over the keys of the object, so its insertion order is not modelled.

  A lookup \<open>nds k\<close> of the model reads the own keys of the object. The source reads
  \<^verbatim>\<open>nodes[k]\<close> on a plain object, which for a \<open>k\<close> that is not a key but names a member of
  \<^verbatim>\<open>Object.prototype\<close> (the names below) finds that member, a value that is not a
  \<^verbatim>\<open>ChatNode\<close>. Where the source then behaves differently from the lookup of any other
  missing key, the model follows it: \<^verbatim>\<open>buildChatHistory\<close> adds no message and
  \<^verbatim>\<open>layoutNode\<close> throws. The \<^verbatim>\<open>UPDATE_NODE\<close> transition would store a copy of the
  inherited member, a value that is not a \<^verbatim>\<open>ChatNode\<close> and that the model cannot hold:
  the theorems about \<^verbatim>\<open>UPDATE_NODE\<close> are about ids that are keys, or that are none of
  these names. Every id that the program itself creates starts with \<^verbatim>\<open>node-\<close>.
\<close>

type_synonym node_map = "string \<rightharpoonup> ChatNode"

definition object_prototype_names :: "string set" where
  "object_prototype_names =
     {''constructor'', ''toString'', ''toLocaleString'', ''valueOf'', ''hasOwnProperty'',
      ''isPrototypeOf'', ''propertyIsEnumerable'', ''__proto__'', ''__defineGetter__'',
      ''__defineSetter__'', ''__lookupGetter__'', ''__lookupSetter__''}"

record ConversationTree =
  metadata :: ConversationMetadata
  nodes :: node_map
  rootId :: string

section \<open>Tree traversal (src/lib/tree-utils.ts)\<close>

text \<open>
  JavaScript truthiness of a value of type \<^verbatim>\<open>string | null\<close>: \<^verbatim>\<open>null\<close> and the empty
  string are falsy, every other string is truthy. The tests \<^verbatim>\<open>while (current)\<close> and
  \<^verbatim>\<open>if (prevId)\<close> read it.
\<close>

fun truthy :: "string option \<Rightarrow> bool" where
  "truthy None = False"
| "truthy (Some s) = (s \<noteq> [])"

text \<open>\<^verbatim>\<open>nodes[current]?.parentId ?? null\<close>: a missing node gives \<^verbatim>\<open>null\<close>.\<close>

definition parent_of :: "node_map \<Rightarrow> string \<Rightarrow> string option" where
  "parent_of nds current = (case nds current of None \<Rightarrow> None | Some n \<Rightarrow> parentId n)"

text \<open>
  The loop of \<^verbatim>\<open>getPathToRoot\<close>:
  \<^verbatim>\<open>while (current) { path.unshift(current); current = nodes[current]?.parentId ?? null }\<close>.
  Nothing in the source bounds the number of iterations, so the loop is a partial function:
  the value \<open>None\<close> stands for a walk that never returns.
\<close>

partial_function (option) walk :: "node_map \<Rightarrow> string option \<Rightarrow> string list \<Rightarrow> string list option" where
  "walk nds current path =
     (case current of
        None \<Rightarrow> Some path
      | Some c \<Rightarrow> if c = [] then Some path else walk nds (parent_of nds c) (c # path))"

declare walk.simps [code]

definition getPathToRoot :: "string \<Rightarrow> node_map \<Rightarrow> string list option" where
  "getPathToRoot nodeId nds = walk nds (Some nodeId) []"


text \<open>
  \<^verbatim>\<open>buildChatHistory\<close>: one pass over the path. \<^verbatim>\<open>nodes[id]\<close> of an id that is not a
  key is \<^verbatim>\<open>undefined\<close>, and reading \<^verbatim>\<open>node.prompt\<close> of it throws a \<^verbatim>\<open>TypeError\<close>;
  only for a name of \<^verbatim>\<open>Object.prototype\<close> it is the inherited member, whose \<^verbatim>\<open>prompt\<close>
  and \<^verbatim>\<open>response\<close> are \<^verbatim>\<open>undefined\<close>, and the pass goes on without a message.
  \<^verbatim>\<open>if (node.prompt)\<close> tests that the string is not empty. A message
  \<^verbatim>\<open>{ role, content }\<close> is a pair.
\<close>

datatype error = Error string | TypeError

datatype chat_role = User | Assistant

type_synonym chat_message = "chat_role \<times> string"

fun history_loop :: "node_map \<Rightarrow> string list \<Rightarrow> chat_message list \<Rightarrow> error + chat_message list" where
  "history_loop nds [] msgs = Inr msgs"
| "history_loop nds (i # path) msgs =
     (case nds i of
        None \<Rightarrow> if i \<in> object_prototype_names then history_loop nds path msgs else Inl TypeError
      | Some node \<Rightarrow>
          history_loop nds path
            (msgs @ (if prompt node \<noteq> [] then [(User, prompt node)] else [])
                  @ (if response node \<noteq> [] then [(Assistant, response node)] else [])))"

definition buildChatHistory :: "string \<Rightarrow> node_map \<Rightarrow> (error + chat_message list) option" where
  "buildChatHistory nodeId nds =
     (case getPathToRoot nodeId nds of
        None \<Rightarrow> None
      | Some path \<Rightarrow> Some (history_loop nds path []))"

section \<open>JSON import (src/lib/tree-utils.ts)\<close>

text \<open>
  The parsed JSON value is typed \<^verbatim>\<open>unknown\<close>. The model keeps what the parser reads of it:
  \<open>None\<close> for a value that is \<^verbatim>\<open>null\<close> or has no properties, a missing or falsy
  \<^verbatim>\<open>metadata\<close> as \<open>None\<close>, a \<^verbatim>\<open>messages\<close> that is not an array as \<open>None\<close>, and each
  sub-field of the metadata as an option. The role of a message is any string: the parser
  compares it with \<^verbatim>\<open>"Prompt"\<close> and \<^verbatim>\<open>"Response"\<close> and treats everything else as neither.
\<close>

record ExportedMessage =
  role :: string
  say :: string

record ExportedMetadata =
  meta_title :: "string option"
  meta_user :: "UserInfo option"
  meta_dates :: "Dates option"

record ExportedJson =
  json_metadata :: "ExportedMetadata option"
  json_messages :: "ExportedMessage list option"

text \<open>
  The pairing loop, by index as in the source:
  \<^verbatim>\<open>for (let i = 0; i < json.messages.length; i++)\<close>, where \<^verbatim>\<open>json.messages[i + 1]\<close> past
  the end is \<^verbatim>\<open>undefined\<close> and the extra \<^verbatim>\<open>i++\<close> skips a consumed response. A pair
  \<^verbatim>\<open>{ prompt, response }\<close> is a pair of strings.
\<close>

function pair_loop :: "ExportedMessage list \<Rightarrow> nat \<Rightarrow> (string \<times> string) list \<Rightarrow> (string \<times> string) list" where
  "pair_loop msgs i pairs =
     (if i < length msgs then
        (if role (msgs ! i) = ''Prompt'' then
           (let nxt = (if i + 1 < length msgs then Some (msgs ! (i + 1)) else None);
                consumed = (case nxt of None \<Rightarrow> False | Some m \<Rightarrow> role m = ''Response'');
                resp = (case nxt of None \<Rightarrow> [] | Some m \<Rightarrow> if role m = ''Response'' then say m else [])
            in pair_loop msgs ((if consumed then i + 1 else i) + 1) (pairs @ [(say (msgs ! i), resp)]))
         else pair_loop msgs (i + 1) pairs)
      else pairs)"
  by pat_completeness auto
termination
  by (relation "measure (\<lambda>(msgs, i, pairs). length msgs - i)") auto

text \<open>
  Decimal digits of a natural number, as the template literal \<^verbatim>\<open>`node-${index}`\<close> prints
  an array index.
\<close>

definition digit_char :: "nat \<Rightarrow> char" where
  "digit_char d = ''0123456789'' ! d"

function number_toString :: "nat \<Rightarrow> string" where
  "number_toString n =
     (if n < 10 then [digit_char n] else number_toString (n div 10) @ [digit_char (n mod 10)])"
  by pat_completeness auto
termination
  by (relation "measure (\<lambda>n. n)") auto

definition node_id :: "nat \<Rightarrow> string" where
  "node_id index = ''node-'' @ number_toString index"

text \<open>
  The body of \<^verbatim>\<open>pairs.forEach((pair, index) => ...)\<close> on the state it closes over: the
  node object, \<^verbatim>\<open>prevId\<close> and \<^verbatim>\<open>rootId\<close>. \<^verbatim>\<open>nodes[prevId].childIds.push(id)\<close>
  throws a \<^verbatim>\<open>TypeError\<close> when \<^verbatim>\<open>nodes[prevId]\<close> is missing. Every node gets a fresh
  \<^verbatim>\<open>childIds\<close> array, so the push changes that one node only.
\<close>

type_synonym build_state = "node_map \<times> string option \<times> string"

fun forEach_body :: "build_state \<Rightarrow> string \<times> string \<Rightarrow> nat \<Rightarrow> error + build_state" where
  "forEach_body (nds, prev, rid) pair index =
     (let i = node_id index;
          rid' = (if index = 0 then i else rid);
          nds' = nds(i \<mapsto> \<lparr>id' = i, prompt = fst pair, response = snd pair,
                            parentId = prev, childIds = [], source = imported\<rparr>)
      in if truthy prev then
           (case nds' (the prev) of
              None \<Rightarrow> Inl TypeError
            | Some p \<Rightarrow> Inr (nds'(the prev \<mapsto> p\<lparr>childIds := childIds p @ [i]\<rparr>), Some i, rid'))
         else Inr (nds', Some i, rid'))"

fun forEach_loop :: "(string \<times> string) list \<Rightarrow> nat \<Rightarrow> build_state \<Rightarrow> error + build_state" where
  "forEach_loop [] index st = Inr st"
| "forEach_loop (pair # rest) index st =
     (case forEach_body st pair index of
        Inl e \<Rightarrow> Inl e
      | Inr st' \<Rightarrow> forEach_loop rest (Suc index) st')"

text \<open>\<^verbatim>\<open>a || b\<close> on an optional string: the default replaces a missing or empty string.\<close>

definition or_default :: "string option \<Rightarrow> string \<Rightarrow> string" where
  "or_default v d = (if truthy v then the v else d)"

definition parseImportedJson :: "ExportedJson option \<Rightarrow> error + ConversationTree" where
  "parseImportedJson raw =
     (case raw of
        None \<Rightarrow> Inl (Error ''Invalid ChatGPT Exporter JSON format'')
      | Some json \<Rightarrow>
         (case json_metadata json of
            None \<Rightarrow> Inl (Error ''Invalid ChatGPT Exporter JSON format'')
          | Some md \<Rightarrow>
             (case json_messages json of
                None \<Rightarrow> Inl (Error ''Invalid ChatGPT Exporter JSON format'')
              | Some msgs \<Rightarrow>
                 (let pairs = pair_loop msgs 0 [] in
                  if length pairs = 0 then Inl (Error ''No prompt/response pairs found in the JSON'')
                  else (case forEach_loop pairs 0 (Map.empty, None, []) of
                          Inl e \<Rightarrow> Inl e
                        | Inr (nds, prev, rid) \<Rightarrow>
                            Inr \<lparr>metadata =
                                   \<lparr>title = or_default (meta_title md) ''Imported Conversation'',
                                    user = (case meta_user md of None \<Rightarrow> \<lparr>name = ''Unknown'', email = []\<rparr> | Some u \<Rightarrow> u),
                                    dates = (case meta_dates md of None \<Rightarrow> \<lparr>created = [], updated = [], exported = []\<rparr> | Some d \<Rightarrow> d)\<rparr>,
                                 nodes = nds, rootId = rid\<rparr>)))))"

section \<open>Tree mutation (src/lib/tree-utils.ts)\<close>

text \<open>
  \<^verbatim>\<open>createBranchNode\<close> reads the clock and the random generator. They are parameters of
  the model: \<open>now\<close> is the value of \<^verbatim>\<open>Date.now()\<close> and \<open>rnd\<close> is the string
  \<^verbatim>\<open>Math.random().toString(36).slice(2, 6)\<close> (at most four characters).
  \<^verbatim>\<open>const updated = { ...nodes }\<close> is a fresh object, so the two assignments are updates of
  a new map and the argument is not written to. Reading \<^verbatim>\<open>updated[parentId].childIds\<close> of a
  missing parent throws a \<^verbatim>\<open>TypeError\<close>; the source has no other failure.
\<close>

definition new_id :: "nat \<Rightarrow> string \<Rightarrow> string" where
  "new_id now rnd = ''node-'' @ number_toString now @ ''-'' @ rnd"

definition createBranchNode :: "nat \<Rightarrow> string \<Rightarrow> string \<Rightarrow> node_map \<Rightarrow> error + node_map \<times> string" where
  "createBranchNode now rnd parent nds =
     (let newId = new_id now rnd;
          upd = nds(newId \<mapsto> \<lparr>id' = newId, prompt = [], response = [], parentId = Some parent,
                                 childIds = [], source = generated\<rparr>)
      in case upd parent of
           None \<Rightarrow> Inl TypeError
         | Some p \<Rightarrow> Inr (upd(parent \<mapsto> p\<lparr>childIds := childIds p @ [newId]\<rparr>), newId))"

section \<open>Tree layout (src/lib/tree-utils.ts)\<close>

text \<open>
  JavaScript numbers are binary64 floating-point numbers: every one of them is a rational,
  and every arithmetic operation returns the rounding of its exact result. The rounding is
  the parameter \<open>fl\<close> of the model, applied where the source computes: in
  \<^verbatim>\<open>depth * (nodeHeight + vGap)\<close>, in \<^verbatim>\<open>leafCounter * (nodeWidth + hGap)\<close> and in
  \<^verbatim>\<open>(globalMin + globalMax) / 2\<close> each of the two operations rounds; \<^verbatim>\<open>Math.min\<close> and
  \<^verbatim>\<open>Math.max\<close> return one of their arguments and do not round. The counters
  \<^verbatim>\<open>leafCounter\<close> and \<^verbatim>\<open>depth\<close> count nodes of the tree and are natural numbers.
  Infinite values and \<^verbatim>\<open>NaN\<close> are not rationals and are outside the model; the two
  zeros of binary64, which \<^verbatim>\<open>===\<close> does not tell apart, are the one rational \<open>0\<close>.

  A position \<^verbatim>\<open>{ x, y }\<close> is a pair. The state of one layout pass is the \<^verbatim>\<open>positions\<close>
  map and \<^verbatim>\<open>leafCounter\<close>; both are created anew by every call of \<^verbatim>\<open>computeTreeLayout\<close>.

  \<^verbatim>\<open>layoutNode\<close> recurses along \<^verbatim>\<open>childIds\<close> with nothing to stop it on a cyclic mapping,
  where JavaScript exhausts its call stack and throws. The argument \<open>fuel\<close> of the model
  bounds the depth of the recursion. \<open>None\<close> is a call that throws: the exhausted stack,
  or the \<^verbatim>\<open>TypeError\<close> of reading \<^verbatim>\<open>node.childIds.length\<close> when \<^verbatim>\<open>nodes[id]\<close> is an
  inherited member of \<^verbatim>\<open>Object.prototype\<close>, which passes the test \<^verbatim>\<open>if (!node)\<close>.

  The loop over the children starts from \<^verbatim>\<open>globalMin = Infinity\<close> and
  \<^verbatim>\<open>globalMax = -Infinity\<close>. It runs at least once (the leaf case has returned before), and
  \<^verbatim>\<open>Math.min(Infinity, v) = v\<close>, \<^verbatim>\<open>Math.max(-Infinity, v) = v\<close>: after the first child the
  accumulators are that child's extents, which is where \<open>forChildren\<close> starts.
\<close>

type_synonym LayoutPosition = "rat \<times> rat"






section \<open>Application state (the store's reducer)\<close>

datatype ApiProvider = gateway | gemini

datatype ViewMode = tree_view | path_view

record Settings =
  apiProvider :: ApiProvider
  geminiApiKey :: string
  geminiModel :: string

record AppState =
  tree :: "ConversationTree option"
  selectedNodeId :: "string option"
  activeView :: ViewMode
  settings :: Settings

text \<open>\<^verbatim>\<open>Partial<Settings>\<close> and \<^verbatim>\<open>Partial<ChatNode>\<close>: every property may be absent.\<close>

record SettingsPatch =
  patch_apiProvider :: "ApiProvider option"
  patch_geminiApiKey :: "string option"
  patch_geminiModel :: "string option"

record ChatNodePatch =
  patch_id :: "string option"
  patch_prompt :: "string option"
  patch_response :: "string option"
  patch_parentId :: "string option option"
  patch_childIds :: "string list option"
  patch_source :: "node_source option"

datatype Action =
    IMPORT_TREE ConversationTree
  | SELECT_NODE "string option"
  | SET_VIEW ViewMode
  | UPDATE_SETTINGS SettingsPatch
  | BRANCH_FROM_NODE string
  | UPDATE_NODE string ChatNodePatch
  | INIT_SETTINGS

definition defaultSettings :: Settings where
  "defaultSettings = \<lparr>apiProvider = gemini, geminiApiKey = [], geminiModel = ''google/gemini-2.5-pro''\<rparr>"

text \<open>The object spreads \<^verbatim>\<open>{ ...a, ...patch }\<close>: a property of the patch wins.\<close>

definition merge_settings :: "Settings \<Rightarrow> SettingsPatch \<Rightarrow> Settings" where
  "merge_settings s p =
     \<lparr>apiProvider = (case patch_apiProvider p of None \<Rightarrow> apiProvider s | Some v \<Rightarrow> v),
      geminiApiKey = (case patch_geminiApiKey p of None \<Rightarrow> geminiApiKey s | Some v \<Rightarrow> v),
      geminiModel = (case patch_geminiModel p of None \<Rightarrow> geminiModel s | Some v \<Rightarrow> v)\<rparr>"

definition merge_node :: "ChatNode \<Rightarrow> ChatNodePatch \<Rightarrow> ChatNode" where
  "merge_node n p =
     \<lparr>id' = (case patch_id p of None \<Rightarrow> id' n | Some v \<Rightarrow> v),
      prompt = (case patch_prompt p of None \<Rightarrow> prompt n | Some v \<Rightarrow> v),
      response = (case patch_response p of None \<Rightarrow> response n | Some v \<Rightarrow> v),
      parentId = (case patch_parentId p of None \<Rightarrow> parentId n | Some v \<Rightarrow> v),
      childIds = (case patch_childIds p of None \<Rightarrow> childIds n | Some v \<Rightarrow> v),
      source = (case patch_source p of None \<Rightarrow> source n | Some v \<Rightarrow> v)\<rparr>"

text \<open>
  What the reducer reads from outside its arguments: the clock and the random generator
  (through \<^verbatim>\<open>createBranchNode\<close>), whether \<^verbatim>\<open>window\<close> is defined, and the settings saved
  under the key \<^verbatim>\<open>branching-chats-settings\<close> of \<^verbatim>\<open>localStorage\<close> (\<open>None\<close> when nothing
  is saved or the saved text does not parse, which \<^verbatim>\<open>loadSettings\<close> catches). The reducer
  returns the new state together with the saved settings after the call.

  \<^verbatim>\<open>UPDATE_NODE\<close> reads \<^verbatim>\<open>state.tree.nodes[action.nodeId]\<close> and returns the state it was
  given when \<^verbatim>\<open>!node\<close>. The model has this for every id that is a key and for every id
  that is neither a key nor one of \<open>object_prototype_names\<close>; see the note on lookups in
  the data model for the remaining ids.
\<close>

record Env =
  date_now :: nat
  math_random :: string
  has_window :: bool
  saved :: "SettingsPatch option"

definition loadSettings :: "Env \<Rightarrow> Settings" where
  "loadSettings env =
     (if \<not> has_window env then defaultSettings
      else case saved env of
             Some p \<Rightarrow> merge_settings defaultSettings p
           | None \<Rightarrow> defaultSettings)"

definition stringify :: "Settings \<Rightarrow> SettingsPatch" where
  "stringify s = \<lparr>patch_apiProvider = Some (apiProvider s), patch_geminiApiKey = Some (geminiApiKey s),
                   patch_geminiModel = Some (geminiModel s)\<rparr>"

fun reducer :: "Env \<Rightarrow> AppState \<Rightarrow> Action \<Rightarrow> error + AppState \<times> SettingsPatch option" where
  "reducer env state (IMPORT_TREE t) =
     Inr (state\<lparr>tree := Some t, selectedNodeId := Some (rootId t), activeView := tree_view\<rparr>, saved env)"
| "reducer env state (SELECT_NODE nodeId) =
     Inr (state\<lparr>selectedNodeId := nodeId\<rparr>, saved env)"
| "reducer env state (SET_VIEW v) =
     Inr (state\<lparr>activeView := v\<rparr>, saved env)"
| "reducer env state (UPDATE_SETTINGS p) =
     (let newSettings = merge_settings (settings state) p
      in Inr (state\<lparr>settings := newSettings\<rparr>,
              if has_window env then Some (stringify newSettings) else saved env))"
| "reducer env state (BRANCH_FROM_NODE nodeId) =
     (case tree state of
        None \<Rightarrow> Inr (state, saved env)
      | Some t \<Rightarrow>
         (case createBranchNode (date_now env) (math_random env) nodeId (nodes t) of
            Inl e \<Rightarrow> Inl e
          | Inr (nds, newNodeId) \<Rightarrow>
              Inr (state\<lparr>tree := Some (t\<lparr>nodes := nds\<rparr>), selectedNodeId := Some newNodeId,
                         activeView := path_view\<rparr>, saved env)))"
| "reducer env state (UPDATE_NODE nodeId p) =
     (case tree state of
        None \<Rightarrow> Inr (state, saved env)
      | Some t \<Rightarrow>
         (case nodes t nodeId of
            None \<Rightarrow> Inr (state, saved env)
          | Some node \<Rightarrow>
              Inr (state\<lparr>tree := Some (t\<lparr>nodes := (nodes t)(nodeId \<mapsto> merge_node node p)\<rparr>)\<rparr>, saved env)))"
| "reducer env state INIT_SETTINGS =
     Inr (state\<lparr>settings := loadSettings env\<rparr>, saved env)"

section \<open>Specification predicates and example inputs\<close>

text \<open>
  \<open>chain_ends nds k current\<close>: following \<^verbatim>\<open>parentId\<close> links from \<open>current\<close>, a falsy value
  (\<^verbatim>\<open>null\<close>, or the empty string) is reached after at most \<open>k\<close> links. A node without a
  parent, and an id that is not a key, both continue with \<^verbatim>\<open>null\<close>.
\<close>

fun chain_ends :: "node_map \<Rightarrow> nat \<Rightarrow> string option \<Rightarrow> bool" where
  "chain_ends nds k None = True"
| "chain_ends nds 0 (Some c) = (c = [])"
| "chain_ends nds (Suc k) (Some c) = (c = [] \<or> chain_ends nds k (parent_of nds c))"

text \<open>A malformed mapping: two nodes, each the parent of the other.\<close>

definition cyclic_nodes :: node_map where
  "cyclic_nodes =
     [''a'' \<mapsto> \<lparr>id' = ''a'', prompt = ''p'', response = ''r'', parentId = Some ''b'',
                 childIds = [''b''], source = imported\<rparr>,
      ''b'' \<mapsto> \<lparr>id' = ''b'', prompt = ''q'', response = ''s'', parentId = Some ''a'',
                 childIds = [''a''], source = imported\<rparr>]"

text \<open>The tree that the import of one prompt and its response yields.\<close>

definition root_node :: ChatNode where
  "root_node = \<lparr>id' = ''node-0'', prompt = ''hi'', response = ''hello'', parentId = None,
                 childIds = [], source = imported\<rparr>"

definition root_only :: node_map where
  "root_only = [''node-0'' \<mapsto> root_node]"

definition example_env :: Env where
  "example_env = \<lparr>date_now = 5, math_random = ''ab'', has_window = True, saved = None\<rparr>"

definition example_tree :: ConversationTree where
  "example_tree =
     \<lparr>metadata = \<lparr>title = ''t'', user = \<lparr>name = ''u'', email = ''e''\<rparr>,
                   dates = \<lparr>created = [], updated = [], exported = []\<rparr>\<rparr>,
      nodes = root_only, rootId = ''node-0''\<rparr>"

definition example_state :: AppState where
  "example_state =
     \<lparr>tree = Some example_tree, selectedNodeId = Some ''node-0'', activeView = tree_view,
      settings = defaultSettings\<rparr>"

definition example_messages :: "ExportedMessage list" where
  "example_messages =
     [\<lparr>role = ''Prompt'', say = ''hi''\<rparr>, \<lparr>role = ''Response'', say = ''hello''\<rparr>,
      \<lparr>role = ''Response'', say = ''late''\<rparr>, \<lparr>role = ''Prompt'', say = ''again''\<rparr>]"

text \<open>
  The node that the import builds for the pair at position \<open>i\<close> of \<open>pairs\<close>, and the
  state of the \<^verbatim>\<open>forEach\<close> loop after all of \<open>pairs\<close>: the nodes built so far, \<^verbatim>\<open>prevId\<close>
  and \<^verbatim>\<open>rootId\<close>.
\<close>

definition chain_entry :: "(string \<times> string) list \<Rightarrow> nat \<Rightarrow> ChatNode" where
  "chain_entry pairs i =
     \<lparr>id' = node_id i, prompt = fst (pairs ! i), response = snd (pairs ! i),
      parentId = (if i = 0 then None else Some (node_id (i - 1))),
      childIds = (if Suc i < length pairs then [node_id (Suc i)] else []),
      source = imported\<rparr>"

definition chain_state :: "(string \<times> string) list \<Rightarrow> build_state \<Rightarrow> bool" where
  "chain_state pairs st =
     (case st of (nds, prev, rid) \<Rightarrow>
        dom nds = node_id ` {..<length pairs} \<and>
        (\<forall>i<length pairs. nds (node_id i) = Some (chain_entry pairs i)) \<and>
        prev = (if pairs = [] then None else Some (node_id (length pairs - 1))) \<and>
        (pairs \<noteq> [] \<longrightarrow> rid = node_id 0))"

definition example_json :: ExportedJson where
  "example_json =
     \<lparr>json_metadata = Some \<lparr>meta_title = None, meta_user = None, meta_dates = None\<rparr>,
      json_messages = Some example_messages\<rparr>"

text \<open>
  The structural invariant of the data model, on the node mapping. \<open>reaches_root nds j k\<close>:
  the chain of \<^verbatim>\<open>parentId\<close> links from \<open>k\<close> arrives after exactly \<open>j\<close> links at a node of
  the mapping that has no parent.
\<close>

fun reaches_root :: "node_map \<Rightarrow> nat \<Rightarrow> string \<Rightarrow> bool" where
  "reaches_root nds 0 k = (k \<in> dom nds \<and> parent_of nds k = None)"
| "reaches_root nds (Suc j) k =
     (case parent_of nds k of None \<Rightarrow> False | Some p \<Rightarrow> reaches_root nds j p)"

definition tree_invariant :: "node_map \<Rightarrow> bool" where
  "tree_invariant nds \<longleftrightarrow>
     finite (dom nds) \<and>
     (\<exists>r. r \<in> dom nds \<and> parent_of nds r = None \<and>
          (\<forall>k \<in> dom nds. parent_of nds k = None \<longrightarrow> k = r)) \<and>
     (\<forall>k \<in> dom nds. \<forall>p. parent_of nds k = Some p \<longrightarrow>
          (\<exists>pn. nds p = Some pn \<and> k \<in> set (childIds pn))) \<and>
     (\<forall>k \<in> dom nds. \<exists>j \<le> card (dom nds). reaches_root nds j k)"

definition branched_nodes :: node_map where
  "branched_nodes =
     [''node-0'' \<mapsto> root_node\<lparr>childIds := [''node-5-ab'']\<rparr>,
      ''node-5-ab'' \<mapsto> \<lparr>id' = ''node-5-ab'', prompt = [], response = [], parentId = Some ''node-0'',
                           childIds = [''node-5-cd''], source = generated\<rparr>,
      ''node-5-cd'' \<mapsto> \<lparr>id' = ''node-5-cd'', prompt = [], response = [], parentId = Some ''node-5-ab'',
                           childIds = [], source = generated\<rparr>]"

text \<open>
  \<open>links nds par path\<close>: every id of \<open>path\<close> is a key of the mapping, the parent of the
  first one is \<open>par\<close> and the parent of every other one is the id before it. The root-path of
  a node starts at a node without parent and ends at the node.
\<close>

fun links :: "node_map \<Rightarrow> string option \<Rightarrow> string list \<Rightarrow> bool" where
  "links nds par [] = True"
| "links nds par (k # ks) =
     ((case nds k of None \<Rightarrow> False | Some n \<Rightarrow> parentId n = par) \<and> links nds (Some k) ks)"

definition root_path :: "node_map \<Rightarrow> string \<Rightarrow> string list \<Rightarrow> bool" where
  "root_path nds nodeId path \<longleftrightarrow> path \<noteq> [] \<and> last path = nodeId \<and> links nds None path"

text \<open>The messages of one node: its prompt as \<^verbatim>\<open>user\<close>, then its response as \<^verbatim>\<open>assistant\<close>, each only when not empty.\<close>

definition node_messages :: "ChatNode \<Rightarrow> chat_message list" where
  "node_messages n =
     (if prompt n \<noteq> [] then [(User, prompt n)] else []) @
     (if response n \<noteq> [] then [(Assistant, response n)] else [])"

definition messages_at :: "node_map \<Rightarrow> string \<Rightarrow> chat_message list" where
  "messages_at nds k = (case nds k of None \<Rightarrow> [] | Some n \<Rightarrow> node_messages n)"

definition history_nodes :: node_map where
  "history_nodes =
     [''node-0'' \<mapsto> \<lparr>id' = ''node-0'', prompt = ''x'', response = ''y'', parentId = None,
                        childIds = [''node-1''], source = imported\<rparr>,
      ''node-1'' \<mapsto> \<lparr>id' = ''node-1'', prompt = ''a'', response = ''b'', parentId = Some ''node-0'',
                        childIds = [], source = imported\<rparr>]"

definition empty_id_nodes :: node_map where
  "empty_id_nodes =
     [[] \<mapsto> \<lparr>id' = [], prompt = ''x'', response = ''y'', parentId = None,
               childIds = [], source = imported\<rparr>]"

definition prompt_patch :: ChatNodePatch where
  "prompt_patch = \<lparr>patch_id = None, patch_prompt = Some ''edited'', patch_response = None,
                    patch_parentId = None, patch_childIds = None, patch_source = None\<rparr>"

text \<open>
  The shape of a tree as the layout sees it: the id of a node and the subtrees of its
  children, in \<^verbatim>\<open>childIds\<close> order. \<open>rep nds t\<close> says that the mapping unfolds to \<open>t\<close>
  along \<^verbatim>\<open>childIds\<close>: every id of \<open>t\<close> is a key and the \<^verbatim>\<open>childIds\<close> of its node are the ids
  of its subtrees. A tree is well formed for the layout when, from the root, the mapping
  unfolds to a finite shape in which no id occurs twice.
\<close>

datatype subtree = Subtree (head_id: string) (kids: "subtree list")


text \<open>
  The ids of a shape (root first), its leaves in depth-first \<^verbatim>\<open>childIds\<close> order, its height
  (a leaf has height 1: the number of nested \<^verbatim>\<open>layoutNode\<close> calls), every id with its depth,
  and all subtrees.
\<close>

fun ids :: "subtree \<Rightarrow> string list" where
  "ids (Subtree i ts) = i # concat (map ids ts)"









text \<open>\<open>extends pos js pos'\<close>: \<open>pos'\<close> has positions for the ids \<open>js\<close> in addition and is \<open>pos\<close> elsewhere.\<close>

definition extends :: "(string \<rightharpoonup> LayoutPosition) \<Rightarrow> string list \<Rightarrow> (string \<rightharpoonup> LayoutPosition) \<Rightarrow> bool" where
  "extends pos js pos' \<longleftrightarrow> dom pos' = dom pos \<union> set js \<and> (\<forall>j. j \<notin> set js \<longrightarrow> pos' j = pos j)"






section \<open>The root-path walker\<close>

lemma walk_None: "walk nds None path = Some path"
  by (simp add: walk.simps)

lemma walk_empty: "walk nds (Some []) path = Some path"
  by (simp add: walk.simps)

lemma walk_step: "c \<noteq> [] \<Longrightarrow> walk nds (Some c) path = walk nds (parent_of nds c) (c # path)"
  by (subst walk.simps) simp

text \<open>
  Claim C7, as the spec states it: for an id that is not a key of the mapping,
  \<^verbatim>\<open>getPathToRoot\<close> returns the empty sequence. The code pushes the starting id before
  it looks the node up, so for the unknown id \<^verbatim>\<open>"ghost"\<close> and the empty mapping it returns
  the one-element path \<^verbatim>\<open>["ghost"]\<close>.
\<close>

theorem getPathToRoot_unknown_counterexample:
  "''ghost'' \<notin> dom (Map.empty :: node_map) \<and>
   getPathToRoot ''ghost'' Map.empty = Some [''ghost''] \<and>
   getPathToRoot ''ghost'' Map.empty \<noteq> Some []"
  by (simp add: getPathToRoot_def walk_step walk_None parent_of_def)

text \<open>
  Claim C7, amended: for every mapping and every starting id that is not a key of it,
  \<^verbatim>\<open>getPathToRoot\<close> returns the path that holds just the starting id; only for the empty
  string (falsy in JavaScript) the path is empty.
\<close>

theorem getPathToRoot_unknown:
  "nodeId \<notin> dom nds \<Longrightarrow>
   getPathToRoot nodeId nds = Some (if nodeId = [] then [] else [nodeId])"
  by (auto simp: getPathToRoot_def walk_step walk_None walk_empty parent_of_def dom_def)

theorem getPathToRoot_unknown_witness:
  "''ghost'' \<notin> dom (Map.empty :: node_map) \<and>
   getPathToRoot ''ghost'' (Map.empty :: node_map) = Some [''ghost'']"
  using getPathToRoot_unknown [of "''ghost''" "Map.empty :: node_map"] by simp

subsection \<open>Termination of the walk\<close>

text \<open>
  A walk that returns has not started inside the two-node cycle: by the induction rule of
  the partial function, every returning call has a \<open>current\<close> other than \<^verbatim>\<open>"a"\<close> and
  \<^verbatim>\<open>"b"\<close>.
\<close>

lemma walk_cyclic_aux:
  assumes r: "walk nds0 current0 path0 = Some y0"
  shows "nds0 = cyclic_nodes \<longrightarrow> current0 \<noteq> Some ''a'' \<and> current0 \<noteq> Some ''b''"
proof (rule walk.raw_induct [where P = "\<lambda>nds current path y. nds = cyclic_nodes \<longrightarrow> current \<noteq> Some ''a'' \<and> current \<noteq> Some ''b''", OF _ r], goal_cases)
  case (1 w nds current path y)
  show ?case
  proof (cases current)
    case None
    then show ?thesis by simp
  next
    case (Some c)
    show ?thesis
    proof (cases "c = []")
      case True
      with Some show ?thesis by simp
    next
      case False
      with Some 1(2) have "w nds (parent_of nds c) (c # path) = Some y" by simp
      from 1(1)[OF this] Some show ?thesis
        by (auto simp: cyclic_nodes_def parent_of_def)
    qed
  qed
qed

lemma walk_chain_ends:
  "chain_ends nds k current \<Longrightarrow> \<exists>p. walk nds current path = Some (p @ path) \<and> length p \<le> k"
proof (induction nds k current arbitrary: path rule: chain_ends.induct)
  case (1 nds k)
  then show ?case by (simp add: walk_None)
next
  case (2 nds c)
  then show ?case by (simp add: walk_empty)
next
  case (3 nds k c)
  show ?case
  proof (cases "c = []")
    case True
    then show ?thesis by (simp add: walk_empty)
  next
    case False
    with 3 obtain p where "walk nds (parent_of nds c) (c # path) = Some (p @ c # path)" "length p \<le> k"
      by fastforce
    with False show ?thesis
      by (intro exI[of _ "p @ [c]"]) (simp add: walk_step)
  qed
qed

lemma walk_returns_chain_ends:
  assumes r: "walk nds0 current0 path0 = Some y0"
  shows "length path0 \<le> length y0 \<and> chain_ends nds0 (length y0 - length path0) current0"
proof (rule walk.raw_induct [where P = "\<lambda>nds current path y. length path \<le> length y \<and> chain_ends nds (length y - length path) current", OF _ r], goal_cases)
  case (1 w nds current path y)
  show ?case
  proof (cases current)
    case None
    with 1(2) show ?thesis by simp
  next
    case (Some c)
    show ?thesis
    proof (cases "c = []")
      case True
      with Some 1(2) show ?thesis by simp
    next
      case False
      with Some 1(2) have "w nds (parent_of nds c) (c # path) = Some y" by simp
      from 1(1)[OF this] have le: "Suc (length path) \<le> length y"
        and ce: "chain_ends nds (length y - Suc (length path)) (parent_of nds c)" by simp_all
      from le have "length y - length path = Suc (length y - Suc (length path))" by simp
      with ce le Some show ?thesis by simp
    qed
  qed
qed

text \<open>
  Claim C8, as the spec states it: \<^verbatim>\<open>getPathToRoot\<close> terminates on every mapping, a
  \<^verbatim>\<open>parentId\<close> cycle included, because the walk is bounded by the node count and fails with
  \<^verbatim>\<open>CycleDetected\<close>. The source has neither the bound nor the failure: on the two-node cycle
  the walk from \<^verbatim>\<open>"a"\<close> never returns.
\<close>

theorem getPathToRoot_cycle_counterexample: "getPathToRoot ''a'' cyclic_nodes = None"
proof (cases "getPathToRoot ''a'' cyclic_nodes")
  case None
  then show ?thesis .
next
  case (Some y)
  then show ?thesis
    using walk_cyclic_aux [of cyclic_nodes "Some ''a''" "[]" y]
    by (simp add: getPathToRoot_def)
qed

text \<open>
  Claim C8, amended: \<^verbatim>\<open>getPathToRoot\<close> terminates exactly when the chain of
  \<^verbatim>\<open>parentId\<close> links from the starting id ends: if it ends after at most \<open>k\<close> links, the
  walk returns a path of at most \<open>k\<close> ids, and a walk that returns a path has a chain that
  ends within the length of that path. There is no bound by the node count and no
  \<^verbatim>\<open>CycleDetected\<close> failure.
\<close>

theorem getPathToRoot_terminates:
  "(chain_ends nds k (Some nodeId) \<longrightarrow>
      (\<exists>path. getPathToRoot nodeId nds = Some path \<and> length path \<le> k)) \<and>
   (getPathToRoot nodeId nds = Some path' \<longrightarrow> chain_ends nds (length path') (Some nodeId))"
proof (intro conjI impI)
  assume "chain_ends nds k (Some nodeId)"
  from walk_chain_ends [OF this, of "[]"]
  show "\<exists>path. getPathToRoot nodeId nds = Some path \<and> length path \<le> k"
    by (auto simp: getPathToRoot_def)
next
  assume "getPathToRoot nodeId nds = Some path'"
  then have "walk nds (Some nodeId) [] = Some path'" by (simp add: getPathToRoot_def)
  from walk_returns_chain_ends [OF this]
  show "chain_ends nds (length path') (Some nodeId)" by simp
qed

theorem getPathToRoot_terminates_witness:
  "chain_ends root_only 1 (Some ''node-0'') \<and>
   (\<exists>path. getPathToRoot ''node-0'' root_only = Some path \<and> length path \<le> 1)"
proof -
  have h: "chain_ends root_only 1 (Some ''node-0'')"
    by (simp add: root_only_def root_node_def parent_of_def)
  with getPathToRoot_terminates [of root_only 1 "''node-0''"] show ?thesis by blast
qed

section \<open>The pairing scan of the import\<close>

declare pair_loop.simps [simp del]

lemma pair_loop_acc: "pair_loop msgs i (a @ b) = a @ pair_loop msgs i b"
proof (induction msgs i b rule: pair_loop.induct)
  case (1 msgs i pairs)
  show ?case
  proof (cases "i < length msgs")
    case False
    then show ?thesis
      by (simp add: pair_loop.simps [of msgs i])
  next
    case True
    show ?thesis
    proof (cases "role (msgs ! i) = ''Prompt''")
      case False
      from 1(2) [OF True False] True False show ?thesis
        by (simp add: pair_loop.simps [of msgs i])
    next
      case Prompt: True
      from 1(1) [OF True Prompt refl refl refl] True Prompt show ?thesis
        by (cases "Suc i < length msgs"; cases "role (msgs ! Suc i) = ''Response''")
           (simp_all add: pair_loop.simps [of msgs i] pair_loop.simps [of msgs i "a @ pairs"] Let_def)
    qed
  qed
qed

lemma pair_loop_shift: "pair_loop (m # msgs) (Suc i) acc = pair_loop msgs i acc"
proof (induction msgs i acc rule: pair_loop.induct)
  case (1 msgs i pairs)
  show ?case
  proof (cases "i < length msgs")
    case False
    then show ?thesis
      by (simp add: pair_loop.simps [of msgs i] pair_loop.simps [of "m # msgs" "Suc i"])
  next
    case True
    show ?thesis
    proof (cases "role (msgs ! i) = ''Prompt''")
      case False
      from 1(2) [OF True False] True False show ?thesis
        by (simp add: pair_loop.simps [of msgs i] pair_loop.simps [of "m # msgs" "Suc i"])
    next
      case Prompt: True
      from 1(1) [OF True Prompt refl refl refl] True Prompt show ?thesis
        by (cases "Suc i < length msgs"; cases "role (msgs ! Suc i) = ''Response''")
           (simp_all add: pair_loop.simps [of msgs i] pair_loop.simps [of "m # msgs" "Suc i"] Let_def)
    qed
  qed
qed

lemma pair_loop_Nil: "pair_loop [] 0 [] = []"
  by (simp add: pair_loop.simps)

lemma pair_loop_skip: "role m \<noteq> ''Prompt'' \<Longrightarrow> pair_loop (m # rest) 0 [] = pair_loop rest 0 []"
  by (subst pair_loop.simps) (simp add: pair_loop_shift)

lemma pair_loop_pair:
  "role p = ''Prompt'' \<Longrightarrow> role r = ''Response'' \<Longrightarrow>
   pair_loop (p # r # rest) 0 [] = (say p, say r) # pair_loop rest 0 []"
  apply (subst pair_loop.simps)
  using pair_loop_acc [of rest 0 "[(say p, say r)]" "[]"]
  by (simp add: pair_loop_shift Let_def)

lemma pair_loop_alone:
  "role p = ''Prompt'' \<Longrightarrow> rest = [] \<or> role (hd rest) \<noteq> ''Response'' \<Longrightarrow>
   pair_loop (p # rest) 0 [] = (say p, []) # pair_loop rest 0 []"
  apply (subst pair_loop.simps)
  using pair_loop_acc [of rest 0 "[(say p, [])]" "[]"]
  by (cases rest) (auto simp add: pair_loop_shift Let_def)

text \<open>
  Claim C2: the scan of the import goes through the messages from left to right, and at
  the head of what is left to scan: a \<^verbatim>\<open>Prompt\<close> directly followed by a \<^verbatim>\<open>Response\<close> forms
  a pair and the scan goes on after the response; a \<^verbatim>\<open>Prompt\<close> followed by the end of the
  sequence or by a message that is not a \<^verbatim>\<open>Response\<close> (another \<^verbatim>\<open>Prompt\<close>, say) forms a
  pair with the empty response and the scan goes on at that next message; a message that is
  not a \<^verbatim>\<open>Prompt\<close> (a \<^verbatim>\<open>Response\<close> that no prompt has consumed) is dropped and gives no
  pair. The four equations determine the result of the scan for every sequence.
\<close>

theorem pair_loop_scan:
  "pair_loop [] 0 [] = [] \<and>
   (role p = ''Prompt'' \<and> role r = ''Response'' \<longrightarrow>
      pair_loop (p # r # rest) 0 [] = (say p, say r) # pair_loop rest 0 []) \<and>
   (role p = ''Prompt'' \<and> (rest = [] \<or> role (hd rest) \<noteq> ''Response'') \<longrightarrow>
      pair_loop (p # rest) 0 [] = (say p, []) # pair_loop rest 0 []) \<and>
   (role m \<noteq> ''Prompt'' \<longrightarrow> pair_loop (m # rest) 0 [] = pair_loop rest 0 [])"
  by (simp add: pair_loop_Nil pair_loop_pair pair_loop_alone pair_loop_skip)

theorem pair_loop_scan_witness:
  "pair_loop example_messages 0 [] = [(''hi'', ''hello''), (''again'', [])] \<and>
   pair_loop [\<lparr>role = ''Prompt'', say = ''hi''\<rparr>] 0 [] = [(''hi'', [])]"
proof -
  let ?p1 = "\<lparr>role = ''Prompt'', say = ''hi''\<rparr>"
  let ?r1 = "\<lparr>role = ''Response'', say = ''hello''\<rparr>"
  let ?r2 = "\<lparr>role = ''Response'', say = ''late''\<rparr>"
  let ?p2 = "\<lparr>role = ''Prompt'', say = ''again''\<rparr>"
  have a: "pair_loop (?p1 # ?r1 # [?r2, ?p2]) 0 [] = (''hi'', ''hello'') # pair_loop [?r2, ?p2] 0 []"
    using pair_loop_scan [of ?p1 ?r1 "[?r2, ?p2]" ?r2] by simp
  have b: "pair_loop (?r2 # [?p2]) 0 [] = pair_loop [?p2] 0 []"
    using pair_loop_scan [of ?p1 ?r1 "[?p2]" ?r2] by simp
  have c: "pair_loop (?p2 # []) 0 [] = (''again'', []) # pair_loop [] 0 []"
    using pair_loop_scan [of ?p2 ?r1 "[]" ?r2] by simp
  have d: "pair_loop (?p1 # []) 0 [] = (''hi'', []) # pair_loop [] 0 []"
    using pair_loop_scan [of ?p1 ?r1 "[]" ?r2] by simp
  have e: "pair_loop [] 0 [] = []"
    using pair_loop_scan [of ?p1 ?r1 "[]" ?r2] by simp
  from a b c d e show ?thesis by (simp add: example_messages_def)
qed

section \<open>Branch creation\<close>

declare number_toString.simps [simp del]

lemma new_id_5_ab: "new_id 5 ''ab'' = ''node-5-ab''"
  by (simp add: new_id_def number_toString.simps [of 5] digit_char_def)

lemma new_id_5_cd: "new_id 5 ''cd'' = ''node-5-cd''"
  by (simp add: new_id_def number_toString.simps [of 5] digit_char_def)

lemma createBranchNode_Inr:
  assumes "nds parent = Some p" and "new_id now rnd \<notin> dom nds"
  shows "createBranchNode now rnd parent nds =
           Inr (nds(new_id now rnd \<mapsto> \<lparr>id' = new_id now rnd, prompt = [], response = [],
                                        parentId = Some parent, childIds = [], source = generated\<rparr>,
                    parent \<mapsto> p\<lparr>childIds := childIds p @ [new_id now rnd]\<rparr>), new_id now rnd)"
proof -
  from assms have "parent \<noteq> new_id now rnd" by auto
  with assms show ?thesis
    by (simp add: createBranchNode_def Let_def)
qed

text \<open>
  Claim C9, as the spec states it: \<^verbatim>\<open>createBranchNode\<close> fails if and only if the parent
  id is not a key of the mapping. When the id built from the clock and the random suffix is
  the parent id itself, the new node is stored under that key first and the read of
  \<^verbatim>\<open>updated[parentId].childIds\<close> finds it: the call returns although the parent is not in
  the mapping, and the node it returns is its own parent and its own child.
\<close>

theorem createBranchNode_fails_counterexample:
  "''node-5-ab'' \<notin> dom (Map.empty :: node_map) \<and>
   createBranchNode 5 ''ab'' ''node-5-ab'' Map.empty =
     Inr ([''node-5-ab'' \<mapsto> \<lparr>id' = ''node-5-ab'', prompt = [], response = [],
                               parentId = Some ''node-5-ab'', childIds = [''node-5-ab''],
                               source = generated\<rparr>], ''node-5-ab'')"
  by (simp add: createBranchNode_def new_id_5_ab Let_def)

text \<open>
  Claim C9, amended: \<^verbatim>\<open>createBranchNode\<close> fails if and only if the parent id is not a key
  of the mapping and is not the id generated by this call. The failure is the
  \<^verbatim>\<open>TypeError\<close> of reading \<^verbatim>\<open>childIds\<close> of the missing parent, thrown to the caller (the
  source has no error of its own for it); the call writes to a copy only, so the mapping it
  was given is as before.
\<close>

theorem createBranchNode_fails:
  "(parent \<notin> dom nds \<and> parent \<noteq> new_id now rnd \<longrightarrow>
      createBranchNode now rnd parent nds = Inl TypeError) \<and>
   (parent \<in> dom nds \<or> parent = new_id now rnd \<longrightarrow>
      (\<exists>r. createBranchNode now rnd parent nds = Inr r))"
  by (auto simp: createBranchNode_def Let_def dom_def split: option.splits)

theorem createBranchNode_fails_witness:
  "''ghost'' \<notin> dom root_only \<and> ''ghost'' \<noteq> new_id 5 ''ab'' \<and>
   createBranchNode 5 ''ab'' ''ghost'' root_only = Inl TypeError \<and>
   ''node-0'' \<in> dom root_only \<and>
   (\<exists>r. createBranchNode 5 ''ab'' ''node-0'' root_only = Inr r)"
proof -
  have h1: "''ghost'' \<notin> dom root_only \<and> ''ghost'' \<noteq> new_id 5 ''ab''"
    by (simp add: root_only_def new_id_5_ab)
  have h2: "''node-0'' \<in> dom root_only"
    by (simp add: root_only_def)
  from h1 h2 createBranchNode_fails [of "''ghost''" root_only 5 "''ab''"]
    createBranchNode_fails [of "''node-0''" root_only 5 "''ab''"]
  show ?thesis by blast
qed

text \<open>
  Claim C3, as the spec states it, for every mapping that contains the parent: the result
  holds all original entries and one new node, and two successive calls give two distinct
  children. The new id is built from the clock and a random suffix and is not compared with
  the keys of the mapping: a second call within the same millisecond that draws the same
  suffix returns the id of the first call again, overwrites that node and lists the id
  twice in the parent's \<^verbatim>\<open>childIds\<close>.
\<close>

theorem createBranchNode_collision_counterexample:
  "createBranchNode 5 ''ab'' ''node-0'' root_only =
     Inr (root_only(''node-5-ab'' \<mapsto> \<lparr>id' = ''node-5-ab'', prompt = [], response = [],
                                       parentId = Some ''node-0'', childIds = [], source = generated\<rparr>,
                    ''node-0'' \<mapsto> root_node\<lparr>childIds := [''node-5-ab'']\<rparr>), ''node-5-ab'') \<and>
   createBranchNode 5 ''ab'' ''node-0''
       (root_only(''node-5-ab'' \<mapsto> \<lparr>id' = ''node-5-ab'', prompt = [], response = [],
                                       parentId = Some ''node-0'', childIds = [], source = generated\<rparr>,
                    ''node-0'' \<mapsto> root_node\<lparr>childIds := [''node-5-ab'']\<rparr>)) =
     Inr (root_only(''node-5-ab'' \<mapsto> \<lparr>id' = ''node-5-ab'', prompt = [], response = [],
                                       parentId = Some ''node-0'', childIds = [], source = generated\<rparr>,
                    ''node-0'' \<mapsto> root_node\<lparr>childIds := [''node-5-ab'', ''node-5-ab'']\<rparr>), ''node-5-ab'')"
  by (simp add: createBranchNode_def new_id_5_ab Let_def root_only_def root_node_def fun_upd_twist)

text \<open>
  Claim C3, amended: for every mapping that contains the parent id, and provided the
  generated id is not yet a key of the mapping, \<^verbatim>\<open>createBranchNode\<close> returns a mapping whose
  keys are the original ones and the new id; the new node has empty prompt, empty response,
  the given parent, source \<^verbatim>\<open>generated\<close> and no children; the parent's entry is the old one
  with the new id appended last to \<^verbatim>\<open>childIds\<close>; every other entry is unchanged (and the
  argument itself, which is only copied); and a second call on the same parent whose id is
  again fresh yields a second, distinct child and a parent whose \<^verbatim>\<open>childIds\<close> has grown by
  exactly 2.
\<close>

theorem createBranchNode_adds_child:
  assumes "nds parent = Some p" and "new_id now rnd \<notin> dom nds"
  shows "\<exists>nds'. createBranchNode now rnd parent nds = Inr (nds', new_id now rnd) \<and>
     nds' (new_id now rnd) = Some \<lparr>id' = new_id now rnd, prompt = [], response = [],
                                   parentId = Some parent, childIds = [], source = generated\<rparr> \<and>
     dom nds' = insert (new_id now rnd) (dom nds) \<and>
     nds' parent = Some (p\<lparr>childIds := childIds p @ [new_id now rnd]\<rparr>) \<and>
     (\<forall>k. k \<noteq> parent \<and> k \<noteq> new_id now rnd \<longrightarrow> nds' k = nds k) \<and>
     (\<forall>now2 rnd2. new_id now2 rnd2 \<notin> dom nds' \<longrightarrow>
        (\<exists>nds'' p''. createBranchNode now2 rnd2 parent nds' = Inr (nds'', new_id now2 rnd2) \<and>
           new_id now2 rnd2 \<noteq> new_id now rnd \<and>
           nds'' (new_id now rnd) = nds' (new_id now rnd) \<and>
           nds'' (new_id now2 rnd2) = Some \<lparr>id' = new_id now2 rnd2, prompt = [], response = [],
                                   parentId = Some parent, childIds = [], source = generated\<rparr> \<and>
           nds'' parent = Some p'' \<and>
           childIds p'' = childIds p @ [new_id now rnd, new_id now2 rnd2] \<and>
           length (childIds p'') = length (childIds p) + 2))"
proof -
  let ?new = "\<lambda>i. \<lparr>id' = i, prompt = [], response = [], parentId = Some parent,
                    childIds = [], source = generated\<rparr>"
  let ?i = "new_id now rnd"
  let ?p' = "p\<lparr>childIds := childIds p @ [?i]\<rparr>"
  let ?nds' = "nds(?i \<mapsto> ?new ?i, parent \<mapsto> ?p')"
  from assms have ne: "parent \<noteq> ?i" by auto
  have first: "createBranchNode now rnd parent nds = Inr (?nds', ?i)"
    by (rule createBranchNode_Inr [OF assms])
  have second: "\<exists>nds'' p''. createBranchNode now2 rnd2 parent ?nds' = Inr (nds'', new_id now2 rnd2) \<and>
           new_id now2 rnd2 \<noteq> ?i \<and> nds'' ?i = ?nds' ?i \<and>
           nds'' (new_id now2 rnd2) = Some (?new (new_id now2 rnd2)) \<and>
           nds'' parent = Some p'' \<and>
           childIds p'' = childIds p @ [?i, new_id now2 rnd2] \<and>
           length (childIds p'') = length (childIds p) + 2"
    if fresh: "new_id now2 rnd2 \<notin> dom ?nds'" for now2 rnd2
  proof -
    let ?j = "new_id now2 rnd2"
    have par: "?nds' parent = Some ?p'" by simp
    from fresh have nej: "?j \<noteq> ?i" "?j \<noteq> parent" by auto
    from createBranchNode_Inr [OF par fresh] nej ne show ?thesis by simp
  qed
  from assms ne have props:
    "?nds' ?i = Some (?new ?i)"
    "dom ?nds' = insert ?i (dom nds)"
    "?nds' parent = Some ?p'"
    "\<forall>k. k \<noteq> parent \<and> k \<noteq> ?i \<longrightarrow> ?nds' k = nds k"
    by auto
  from second have "\<forall>now2 rnd2. new_id now2 rnd2 \<notin> dom ?nds' \<longrightarrow>
        (\<exists>nds'' p''. createBranchNode now2 rnd2 parent ?nds' = Inr (nds'', new_id now2 rnd2) \<and>
           new_id now2 rnd2 \<noteq> ?i \<and> nds'' ?i = ?nds' ?i \<and>
           nds'' (new_id now2 rnd2) = Some (?new (new_id now2 rnd2)) \<and>
           nds'' parent = Some p'' \<and>
           childIds p'' = childIds p @ [?i, new_id now2 rnd2] \<and>
           length (childIds p'') = length (childIds p) + 2)"
    by blast
  with first props show ?thesis
    by (intro exI [of _ ?nds'] conjI)
qed

theorem createBranchNode_adds_child_witness:
  "root_only ''node-0'' = Some root_node \<and> new_id 5 ''ab'' \<notin> dom root_only \<and>
   (\<exists>nds'. createBranchNode 5 ''ab'' ''node-0'' root_only = Inr (nds', ''node-5-ab'') \<and>
      dom nds' = {''node-5-ab'', ''node-0''} \<and>
      nds' ''node-0'' = Some (root_node\<lparr>childIds := [''node-5-ab'']\<rparr>))"
proof -
  have h1: "root_only ''node-0'' = Some root_node"
    by (simp add: root_only_def)
  have h2: "new_id 5 ''ab'' \<notin> dom root_only"
    by (simp add: root_only_def new_id_5_ab)
  have c: "childIds root_node = []" "dom root_only = {''node-0''}"
    by (simp_all add: root_node_def root_only_def)
  from createBranchNode_adds_child [OF h1 h2] h1 h2 c show ?thesis
    by (auto simp: new_id_5_ab)
qed

section \<open>The reducer\<close>

text \<open>
  Every transition but \<^verbatim>\<open>BRANCH_FROM_NODE\<close> returns a state, and \<^verbatim>\<open>UPDATE_NODE\<close> without a
  tree, or on an id that is not in the tree and does not name a member of
  \<^verbatim>\<open>Object.prototype\<close>, returns the state it was given.
\<close>

lemma reducer_total_but_branch:
  "(\<forall>nodeId. action \<noteq> BRANCH_FROM_NODE nodeId) \<Longrightarrow> \<exists>r. reducer env state action = Inr r"
  by (cases action) (auto simp: Let_def split: option.splits)

lemma reducer_update_unknown:
  "tree state = None \<or>
   (\<exists>t. tree state = Some t \<and> nodeId \<notin> dom (nodes t) \<and> nodeId \<notin> object_prototype_names) \<Longrightarrow>
   reducer env state (UPDATE_NODE nodeId p) = Inr (state, saved env)"
  by (auto simp: dom_def)

lemma reducer_branch_no_tree:
  "tree state = None \<Longrightarrow> reducer env state (BRANCH_FROM_NODE nodeId) = Inr (state, saved env)"
  by simp

text \<open>
  Claim C6 says that every transition is total and that an action on a node id that is
  not in the tree leaves the state unchanged. \<^verbatim>\<open>UPDATE_NODE\<close> has the guard
  \<^verbatim>\<open>if (!node) return state\<close>; \<^verbatim>\<open>BRANCH_FROM_NODE\<close> tests only that a tree is there, so
  for an unknown id the \<^verbatim>\<open>TypeError\<close> of \<^verbatim>\<open>createBranchNode\<close> leaves the reducer.
\<close>

theorem reducer_branch_unknown_raises:
  "tree example_state \<noteq> None \<and> ''ghost'' \<notin> dom root_only \<and>
   reducer example_env example_state (BRANCH_FROM_NODE ''ghost'') = Inl TypeError \<and>
   reducer example_env example_state (UPDATE_NODE ''ghost'' patch) = Inr (example_state, saved example_env)"
  by (simp add: example_state_def example_tree_def example_env_def root_only_def createBranchNode_def
      new_id_5_ab Let_def)

section \<open>The imported tree is a linear chain\<close>

lemma digit_char_inj: "a < 10 \<Longrightarrow> b < 10 \<Longrightarrow> digit_char a = digit_char b \<Longrightarrow> a = b"
  unfolding digit_char_def
  by (subst (asm) nth_eq_iff_index_eq) simp_all

lemma number_toString_nonempty: "number_toString n \<noteq> []"
  by (subst number_toString.simps) simp

lemma number_toString_nonempty': "[] \<noteq> number_toString n"
  using number_toString_nonempty [of n] by simp

lemma number_toString_inj: "number_toString a = number_toString b \<Longrightarrow> a = b"
proof (induction a arbitrary: b rule: number_toString.induct)
  case (1 n)
  show ?case
  proof (cases "n < 10")
    case small: True
    show ?thesis
    proof (cases "b < 10")
      case True
      with small 1(2) show ?thesis
        by (simp add: number_toString.simps [of n] number_toString.simps [of b] digit_char_inj)
    next
      case False
      with small 1(2) show ?thesis
        by (simp add: number_toString.simps [of n] number_toString.simps [of b] number_toString_nonempty')
    qed
  next
    case big: False
    show ?thesis
    proof (cases "b < 10")
      case True
      with big 1(2) show ?thesis
        by (simp add: number_toString.simps [of n] number_toString.simps [of b] number_toString_nonempty)
    next
      case False
      with big 1(2) have eq: "number_toString (n div 10) = number_toString (b div 10)"
        and d: "digit_char (n mod 10) = digit_char (b mod 10)"
        by (simp_all add: number_toString.simps [of n] number_toString.simps [of b])
      from 1(1) [OF big eq] have "n div 10 = b div 10" .
      moreover from d have "n mod 10 = b mod 10" by (intro digit_char_inj) simp_all
      ultimately show ?thesis by (metis div_mult_mod_eq)
    qed
  qed
qed

lemma node_id_inj [simp]: "node_id a = node_id b \<longleftrightarrow> a = b"
  by (auto simp: node_id_def dest: number_toString_inj)

lemma node_id_nonempty [simp]: "node_id a \<noteq> []"
  by (simp add: node_id_def)

lemma chain_state_init: "chain_state [] (Map.empty, None, [])"
  by (simp add: chain_state_def)

lemma chain_state_step:
  assumes "chain_state seen (nds, prev, rid)"
  shows "\<exists>st'. forEach_body (nds, prev, rid) pair (length seen) = Inr st' \<and> chain_state (seen @ [pair]) st'"
proof (cases "seen = []")
  case True
  with assms show ?thesis
    by (simp add: chain_state_def chain_entry_def Let_def lessThan_Suc)
next
  case False
  let ?k = "length seen"
  let ?i = "node_id ?k"
  let ?e = "\<lparr>id' = ?i, prompt = fst pair, response = snd pair, parentId = prev, childIds = [], source = imported\<rparr>"
  from False have kpos: "0 < ?k" by simp
  from assms False have prev: "prev = Some (node_id (?k - 1))"
    and dom: "dom nds = node_id ` {..<?k}"
    and ent: "\<And>i. i < ?k \<Longrightarrow> nds (node_id i) = Some (chain_entry seen i)"
    and rid: "rid = node_id 0"
    by (simp_all add: chain_state_def)
  from kpos have last: "nds (node_id (?k - 1)) = Some (chain_entry seen (?k - 1))" by (simp add: ent)
  let ?p = "chain_entry seen (?k - 1)"
  let ?nds' = "nds(?i \<mapsto> ?e, node_id (?k - 1) \<mapsto> ?p\<lparr>childIds := childIds ?p @ [?i]\<rparr>)"
  from kpos have kk: "?k - Suc 0 \<noteq> ?k" "?k \<noteq> ?k - Suc 0" by arith+
  then have neq: "node_id (?k - 1) \<noteq> ?i" by simp
  have body: "forEach_body (nds, prev, rid) pair ?k = Inr (?nds', Some ?i, rid)"
    using prev last kpos neq by (simp add: Let_def)
  have "chain_state (seen @ [pair]) (?nds', Some ?i, rid)"
    unfolding chain_state_def
  proof (simp only: prod.case, intro conjI allI impI)
    show "dom ?nds' = node_id ` {..<length (seen @ [pair])}"
      using dom kpos by (auto simp: lessThan_Suc)
  next
    fix i assume "i < length (seen @ [pair])"
    then consider "i = ?k" | "i = ?k - 1" | "Suc i < ?k"
      by force
    then show "?nds' (node_id i) = Some (chain_entry (seen @ [pair]) i)"
    proof cases
      case 1
      with kpos prev kk show ?thesis
        by (simp add: chain_entry_def)
    next
      case 2
      with kpos kk show ?thesis
        by (simp add: chain_entry_def nth_append)
    next
      case 3
      then have "i < ?k" "i \<noteq> ?k" "i \<noteq> ?k - 1" by simp_all
      with ent [of i] 3 show ?thesis
        by (simp add: chain_entry_def nth_append)
    qed
  next
    show "Some ?i = (if seen @ [pair] = [] then None else Some (node_id (length (seen @ [pair]) - 1)))"
      by simp
  next
    show "rid = node_id 0" by (rule rid)
  qed
  with body show ?thesis by blast
qed

lemma forEach_loop_chain:
  "chain_state seen st \<Longrightarrow>
   \<exists>st'. forEach_loop rest (length seen) st = Inr st' \<and> chain_state (seen @ rest) st'"
proof (induction rest arbitrary: seen st)
  case Nil
  then show ?case by simp
next
  case (Cons pair rest)
  obtain nds prev rid where st: "st = (nds, prev, rid)" by (cases st)
  from chain_state_step [OF Cons.prems [unfolded st], of pair]
  obtain st1 where b: "forEach_body st pair (length seen) = Inr st1"
    and c: "chain_state (seen @ [pair]) st1" unfolding st by blast
  from Cons.IH [OF c] obtain st' where
    "forEach_loop rest (Suc (length seen)) st1 = Inr st'" "chain_state (seen @ pair # rest) st'"
    by auto
  with b show ?case by simp
qed

lemma walk_chain:
  assumes ent: "\<And>i. i < n \<Longrightarrow> nds (node_id i) = Some (chain_entry pairs i)"
  shows "i < n \<Longrightarrow> walk nds (Some (node_id i)) acc = Some (map node_id [0..<Suc i] @ acc)"
proof (induction i arbitrary: acc)
  case 0
  with ent [of 0] show ?case
    by (simp add: walk_step walk_None parent_of_def chain_entry_def)
next
  case (Suc i)
  from Suc.prems have "i < n" by simp
  from Suc.IH [OF this, of "node_id (Suc i) # acc"] ent [OF Suc.prems] show ?case
    by (simp add: walk_step parent_of_def chain_entry_def)
qed

lemma example_pairs: "pair_loop example_messages 0 [] = [(''hi'', ''hello''), (''again'', [])]"
  by (simp add: example_messages_def pair_loop_pair pair_loop_skip pair_loop_alone pair_loop_Nil)

lemma node_id_0: "node_id 0 = ''node-0''"
  by (simp add: node_id_def number_toString.simps [of 0] digit_char_def)

lemma node_id_1: "node_id (Suc 0) = ''node-1''"
  by (simp add: node_id_def number_toString.simps [of "Suc 0"] digit_char_def)

lemma parse_chain_state:
  assumes "json_metadata json = Some md" and "json_messages json = Some msgs"
    and "pair_loop msgs 0 [] = pairs" and "pairs \<noteq> []"
  shows "\<exists>t prev. parseImportedJson (Some json) = Inr t \<and> chain_state pairs (nodes t, prev, rootId t)"
proof -
  from forEach_loop_chain [OF chain_state_init, of pairs]
  obtain nds prev rid where l: "forEach_loop pairs 0 (Map.empty, None, []) = Inr (nds, prev, rid)"
    and c: "chain_state pairs (nds, prev, rid)"
    by (cases "forEach_loop pairs 0 (Map.empty, None, [])") auto
  from assms l have "\<exists>m. parseImportedJson (Some json) = Inr \<lparr>metadata = m, nodes = nds, rootId = rid\<rparr>"
    by (simp add: parseImportedJson_def Let_def)
  with c show ?thesis by force
qed

text \<open>
  Claim C1: for every import JSON that the parser accepts (a metadata object, a message
  array, and \<open>n \<ge> 1\<close> pairs from the scan), \<^verbatim>\<open>parseImportedJson\<close> returns a tree with
  exactly \<open>n\<close> nodes whose ids are \<^verbatim>\<open>node-0\<close> to \<^verbatim>\<open>node-(n-1)\<close> (\<open>node_id i\<close> is
  \<^verbatim>\<open>node-\<close> followed by the decimal digits of \<open>i\<close>); node 0 is the root and has no parent,
  the parent of node \<open>i\<close> is node \<open>i - 1\<close>, the \<^verbatim>\<open>childIds\<close> of every node but the last
  is exactly its successor, and \<^verbatim>\<open>getPathToRoot\<close> of the last node returns all \<open>n\<close> ids in
  the order of creation.
\<close>

theorem parseImportedJson_linear_chain:
  assumes "json_metadata json = Some md" and "json_messages json = Some msgs"
    and "pair_loop msgs 0 [] = pairs" and "pairs \<noteq> []"
  shows "\<exists>t. parseImportedJson (Some json) = Inr t \<and>
     dom (nodes t) = node_id ` {..<length pairs} \<and>
     card (dom (nodes t)) = length pairs \<and>
     rootId t = node_id 0 \<and>
     (\<forall>i<length pairs. nodes t (node_id i) =
        Some \<lparr>id' = node_id i, prompt = fst (pairs ! i), response = snd (pairs ! i),
              parentId = (if i = 0 then None else Some (node_id (i - 1))),
              childIds = (if Suc i < length pairs then [node_id (Suc i)] else []),
              source = imported\<rparr>) \<and>
     getPathToRoot (node_id (length pairs - 1)) (nodes t) = Some (map node_id [0..<length pairs])"
proof -
  from parse_chain_state [OF assms] obtain t prev where
    p: "parseImportedJson (Some json) = Inr t" and c: "chain_state pairs (nodes t, prev, rootId t)"
    by blast
  let ?n = "length pairs"
  from assms(4) have npos: "0 < ?n" by simp
  from c assms(4) have dom: "dom (nodes t) = node_id ` {..<?n}"
    and ent: "\<And>i. i < ?n \<Longrightarrow> nodes t (node_id i) = Some (chain_entry pairs i)"
    and rid: "rootId t = node_id 0"
    by (simp_all add: chain_state_def)
  have "inj_on node_id {..<?n}" by (simp add: inj_on_def)
  then have card: "card (dom (nodes t)) = ?n" by (simp add: dom card_image)
  from npos have "?n - 1 < ?n" by arith
  from walk_chain [of ?n "nodes t" pairs, OF ent this, of "[]"] npos
  have path: "getPathToRoot (node_id (?n - 1)) (nodes t) = Some (map node_id [0..<?n])"
    by (simp add: getPathToRoot_def del: upt_Suc)
  from p dom card rid ent path show ?thesis
    by (intro exI [of _ t]) (simp add: chain_entry_def)
qed

theorem parseImportedJson_linear_chain_witness:
  "json_metadata example_json \<noteq> None \<and> json_messages example_json = Some example_messages \<and>
   pair_loop example_messages 0 [] = [(''hi'', ''hello''), (''again'', [])] \<and>
   (\<exists>t. parseImportedJson (Some example_json) = Inr t \<and>
      dom (nodes t) = {''node-0'', ''node-1''} \<and> card (dom (nodes t)) = 2 \<and> rootId t = ''node-0'' \<and>
      nodes t ''node-0'' = Some \<lparr>id' = ''node-0'', prompt = ''hi'', response = ''hello'', parentId = None,
                                  childIds = [''node-1''], source = imported\<rparr> \<and>
      nodes t ''node-1'' = Some \<lparr>id' = ''node-1'', prompt = ''again'', response = [],
                                  parentId = Some ''node-0'', childIds = [], source = imported\<rparr> \<and>
      getPathToRoot ''node-1'' (nodes t) = Some [''node-0'', ''node-1''])"
proof -
  have h1: "json_metadata example_json = Some \<lparr>meta_title = None, meta_user = None, meta_dates = None\<rparr>"
    and h2: "json_messages example_json = Some example_messages"
    by (simp_all add: example_json_def)
  have h4: "[(''hi'', ''hello''), (''again'', [])] \<noteq> ([] :: (string \<times> string) list)" by simp
  have two: "{..<Suc (Suc 0)} = {0, Suc 0}" by auto
  from parseImportedJson_linear_chain [OF h1 h2 example_pairs h4]
  obtain t where t: "parseImportedJson (Some example_json) = Inr t"
    "dom (nodes t) = node_id ` {..<Suc (Suc 0)}"
    "card (dom (nodes t)) = 2" "rootId t = node_id 0"
    "\<forall>i<Suc (Suc 0). nodes t (node_id i) =
        Some \<lparr>id' = node_id i, prompt = fst ([(''hi'', ''hello''), (''again'', [])] ! i),
              response = snd ([(''hi'', ''hello''), (''again'', [])] ! i),
              parentId = (if i = 0 then None else Some (node_id (i - 1))),
              childIds = (if Suc i < Suc (Suc 0) then [node_id (Suc i)] else []),
              source = imported\<rparr>"
    "getPathToRoot (node_id (Suc 0)) (nodes t) = Some (map node_id [0..<Suc (Suc 0)])"
    by auto
  from t(5) [rule_format, of 0] t(5) [rule_format, of "Suc 0"]
  have "nodes t (node_id 0) = Some \<lparr>id' = ''node-0'', prompt = ''hi'', response = ''hello'', parentId = None,
                                  childIds = [''node-1''], source = imported\<rparr>"
    and "nodes t (node_id (Suc 0)) = Some \<lparr>id' = ''node-1'', prompt = ''again'', response = [],
                                  parentId = Some ''node-0'', childIds = [], source = imported\<rparr>"
    by (simp_all add: node_id_0 node_id_1)
  with t h1 h2 example_pairs show ?thesis
    by (intro conjI exI [of _ t]) (simp_all add: node_id_0 node_id_1 two insert_commute)
qed

section \<open>The structural invariant of the tree\<close>

lemma tree_invariantI:
  assumes "finite (dom nds)" and "r \<in> dom nds" and "parent_of nds r = None"
    and "\<And>k. k \<in> dom nds \<Longrightarrow> parent_of nds k = None \<Longrightarrow> k = r"
    and "\<And>k p. k \<in> dom nds \<Longrightarrow> parent_of nds k = Some p \<Longrightarrow>
           \<exists>pn. nds p = Some pn \<and> k \<in> set (childIds pn)"
    and "\<And>k. k \<in> dom nds \<Longrightarrow> \<exists>j \<le> card (dom nds). reaches_root nds j k"
  shows "tree_invariant nds"
  unfolding tree_invariant_def
proof (intro conjI)
  show "finite (dom nds)" by (rule assms(1))
  show "\<exists>r. r \<in> dom nds \<and> parent_of nds r = None \<and>
          (\<forall>k \<in> dom nds. parent_of nds k = None \<longrightarrow> k = r)"
    using assms(2) assms(3) assms(4) by blast
  show "\<forall>k \<in> dom nds. \<forall>p. parent_of nds k = Some p \<longrightarrow>
          (\<exists>pn. nds p = Some pn \<and> k \<in> set (childIds pn))"
    by (intro ballI allI impI) (rule assms(5))
  show "\<forall>k \<in> dom nds. \<exists>j \<le> card (dom nds). reaches_root nds j k"
    by (intro ballI) (rule assms(6))
qed

lemma tree_invariant_finite: "tree_invariant nds \<Longrightarrow> finite (dom nds)"
  by (simp add: tree_invariant_def)

lemma tree_invariant_root:
  "tree_invariant nds \<Longrightarrow>
   \<exists>r. r \<in> dom nds \<and> parent_of nds r = None \<and>
       (\<forall>k \<in> dom nds. parent_of nds k = None \<longrightarrow> k = r)"
  by (simp add: tree_invariant_def)

lemma tree_invariant_child:
  "tree_invariant nds \<Longrightarrow> k \<in> dom nds \<Longrightarrow> parent_of nds k = Some p \<Longrightarrow>
   \<exists>pn. nds p = Some pn \<and> k \<in> set (childIds pn)"
  by (simp add: tree_invariant_def)

lemma tree_invariant_reaches:
  "tree_invariant nds \<Longrightarrow> k \<in> dom nds \<Longrightarrow> \<exists>j \<le> card (dom nds). reaches_root nds j k"
  by (simp add: tree_invariant_def)

lemma parent_of_dom: "parent_of nds k = Some p \<Longrightarrow> k \<in> dom nds"
  by (auto simp: parent_of_def split: option.splits)

lemma reaches_root_mono:
  assumes same: "\<And>k. k \<in> dom nds \<Longrightarrow> parent_of nds' k = parent_of nds k"
    and sub: "dom nds \<subseteq> dom nds'"
  shows "reaches_root nds j k \<Longrightarrow> reaches_root nds' j k"
proof (induction j arbitrary: k)
  case 0
  with same [of k] sub show ?case by auto
next
  case (Suc j)
  then obtain p where p: "parent_of nds k = Some p" and r: "reaches_root nds j p"
    by (auto split: option.splits)
  from p have "k \<in> dom nds" by (rule parent_of_dom)
  with same [of k] p have "parent_of nds' k = Some p" by simp
  with Suc.IH [OF r] show ?case by simp
qed

lemma tree_invariant_chain:
  assumes c: "chain_state pairs (nds, prev, rid)" and ne: "pairs \<noteq> []"
  shows "tree_invariant nds"
proof -
  let ?n = "length pairs"
  from ne have npos: "0 < ?n" by simp
  from c have dom: "dom nds = node_id ` {..<?n}"
    and ent: "\<And>i. i < ?n \<Longrightarrow> nds (node_id i) = Some (chain_entry pairs i)"
    by (simp_all add: chain_state_def)
  have par: "parent_of nds (node_id i) = (if i = 0 then None else Some (node_id (i - 1)))" if "i < ?n" for i
    using ent [OF that] by (simp add: parent_of_def chain_entry_def)
  have "inj_on node_id {..<?n}" by (simp add: inj_on_def)
  then have card: "card (dom nds) = ?n" by (simp add: dom card_image)
  have fin: "finite (dom nds)" by (simp add: dom)
  have root: "node_id 0 \<in> dom nds" "parent_of nds (node_id 0) = None"
    using npos par [of 0] by (auto simp: dom)
  have uniq: "k = node_id 0" if "k \<in> dom nds" "parent_of nds k = None" for k
    using that par by (auto simp: dom split: if_splits)
  have bi: "\<exists>pn. nds p = Some pn \<and> k \<in> set (childIds pn)"
    if "k \<in> dom nds" and kp: "parent_of nds k = Some p" for k p
  proof -
    from that obtain i where i: "i < ?n" "k = node_id i" by (auto simp: dom)
    with kp par [of i] have ipos: "0 < i" and p: "p = node_id (i - 1)"
      by (auto split: if_splits)
    from i ipos have "i - 1 < ?n" "Suc (i - 1) = i" by arith+
    with ent [of "i - 1"] i have "nds p = Some (chain_entry pairs (i - 1))"
      "k \<in> set (childIds (chain_entry pairs (i - 1)))"
      by (simp_all add: p chain_entry_def)
    then show ?thesis by blast
  qed
  have reach: "i < ?n \<Longrightarrow> reaches_root nds i (node_id i)" for i
  proof (induction i)
    case 0
    with root show ?case by simp
  next
    case (Suc i)
    then show ?case using par [of "Suc i"] by simp
  qed
  have chain: "\<exists>j \<le> card (dom nds). reaches_root nds j k" if "k \<in> dom nds" for k
  proof -
    from that obtain i where i: "i < ?n" "k = node_id i" by (auto simp: dom)
    with reach [of i] card show ?thesis
      by (intro exI [of _ i]) simp
  qed
  from fin root uniq bi chain show ?thesis
    by (rule tree_invariantI)
qed

lemma tree_invariant_parse:
  assumes "parseImportedJson raw = Inr t"
  shows "tree_invariant (nodes t)"
proof -
  from assms obtain json md msgs where raw: "raw = Some json"
    and md: "json_metadata json = Some md" and msgs: "json_messages json = Some msgs"
    and ne: "pair_loop msgs 0 [] \<noteq> []"
    by (auto simp: parseImportedJson_def Let_def split: option.splits if_splits)
  from parse_chain_state [OF md msgs refl ne] assms raw
  obtain prev where "chain_state (pair_loop msgs 0 []) (nodes t, prev, rootId t)" by auto
  from tree_invariant_chain [OF this ne] show ?thesis .
qed

lemma tree_invariant_branch:
  assumes inv: "tree_invariant nds" and par: "nds parent = Some p"
    and fresh: "new_id now rnd \<notin> dom nds"
    and res: "createBranchNode now rnd parent nds = Inr (nds', newId)"
  shows "tree_invariant nds'"
proof -
  let ?i = "new_id now rnd"
  let ?e = "\<lparr>id' = ?i, prompt = [], response = [], parentId = Some parent, childIds = [], source = generated\<rparr>"
  let ?p' = "p\<lparr>childIds := childIds p @ [?i]\<rparr>"
  from createBranchNode_Inr [OF par fresh] res
  have nds': "nds' = nds(?i \<mapsto> ?e, parent \<mapsto> ?p')" by simp
  from par fresh have ne: "parent \<noteq> ?i" by auto
  from par have dom': "dom nds' = insert ?i (dom nds)" by (auto simp: nds')
  from inv have fin: "finite (dom nds)" by (rule tree_invariant_finite)
  with fresh have card': "card (dom nds') = Suc (card (dom nds))" by (simp add: dom')
  have old: "parent_of nds' k = parent_of nds k" if "k \<in> dom nds" for k
    using that fresh par by (auto simp: nds' parent_of_def)
  have new: "parent_of nds' ?i = Some parent"
    using ne by (simp add: nds' parent_of_def)
  from tree_invariant_root [OF inv] obtain r where r: "r \<in> dom nds" "parent_of nds r = None"
    "\<forall>k \<in> dom nds. parent_of nds k = None \<longrightarrow> k = r"
    by blast
  have root: "r \<in> dom nds'" "parent_of nds' r = None"
    using r(1,2) old [of r] by (simp_all add: dom')
  have uniq: "k = r" if "k \<in> dom nds'" "parent_of nds' k = None" for k
    using that r(3) [rule_format, of k] old [of k] new by (auto simp: dom')
  have bi: "\<exists>qn. nds' q = Some qn \<and> k \<in> set (childIds qn)"
    if k: "k \<in> dom nds'" and kq: "parent_of nds' k = Some q" for k q
  proof -
    show ?thesis
    proof (cases "k = ?i")
      case True
      with kq new have "q = parent" by simp
      with True show ?thesis by (simp add: nds')
    next
      case False
      with k have kd: "k \<in> dom nds" by (simp add: dom')
      with kq old have "parent_of nds k = Some q" by simp
      with tree_invariant_child [OF inv kd] obtain qn where qn: "nds q = Some qn" "k \<in> set (childIds qn)"
        by blast
      show ?thesis
      proof (cases "q = parent")
        case True
        with qn par show ?thesis by (simp add: nds')
      next
        case False
        moreover from qn fresh have "q \<noteq> ?i" by auto
        ultimately show ?thesis using qn by (simp add: nds')
      qed
    qed
  qed
  have mono: "reaches_root nds j k \<Longrightarrow> reaches_root nds' j k" for j k
    by (rule reaches_root_mono [of nds nds']) (auto simp: old dom')
  have chain: "\<exists>j \<le> card (dom nds'). reaches_root nds' j k" if k: "k \<in> dom nds'" for k
  proof -
    show ?thesis
    proof (cases "k = ?i")
      case True
      from par have "parent \<in> dom nds" by auto
      from tree_invariant_reaches [OF inv this]
      obtain j where "j \<le> card (dom nds)" "reaches_root nds j parent"
        by blast
      with mono [of j parent] new True card' show ?thesis
        by (intro exI [of _ "Suc j"]) simp
    next
      case False
      with k have "k \<in> dom nds" by (simp add: dom')
      from tree_invariant_reaches [OF inv this]
      obtain j where "j \<le> card (dom nds)" "reaches_root nds j k"
        by blast
      with mono [of j k] card' show ?thesis
        by (intro exI [of _ j]) simp
    qed
  qed
  from fin have "finite (dom nds')" by (simp add: dom')
  from this root uniq bi chain show ?thesis
    by (rule tree_invariantI)
qed

lemma tree_invariant_same_links:
  assumes inv: "tree_invariant nds" and dom: "dom nds' = dom nds"
    and par: "\<And>k. parent_of nds' k = parent_of nds k"
    and ch: "\<And>k n. nds k = Some n \<Longrightarrow> \<exists>n'. nds' k = Some n' \<and> childIds n' = childIds n"
  shows "tree_invariant nds'"
proof -
  have mono: "reaches_root nds j k \<Longrightarrow> reaches_root nds' j k" for j k
    by (rule reaches_root_mono [of nds nds']) (simp_all add: par dom)
  from tree_invariant_root [OF inv] obtain r where r: "r \<in> dom nds" "parent_of nds r = None"
    "\<forall>k \<in> dom nds. parent_of nds k = None \<longrightarrow> k = r"
    by blast
  have fin: "finite (dom nds')"
    using tree_invariant_finite [OF inv] by (simp add: dom)
  have root: "r \<in> dom nds'" "parent_of nds' r = None"
    using r(1,2) by (simp_all add: dom par)
  have uniq: "k = r" if "k \<in> dom nds'" "parent_of nds' k = None" for k
    using that r(3) [rule_format, of k] by (simp add: dom par)
  have bi: "\<exists>qn. nds' q = Some qn \<and> k \<in> set (childIds qn)"
    if "k \<in> dom nds'" "parent_of nds' k = Some q" for k q
  proof -
    from that have "k \<in> dom nds" "parent_of nds k = Some q" by (simp_all add: dom par)
    from tree_invariant_child [OF inv this]
    obtain qn where qn: "nds q = Some qn" "k \<in> set (childIds qn)" by blast
    from ch [OF qn(1)] qn(2) show ?thesis by auto
  qed
  have chain: "\<exists>j \<le> card (dom nds'). reaches_root nds' j k" if "k \<in> dom nds'" for k
  proof -
    from that have "k \<in> dom nds" by (simp add: dom)
    from tree_invariant_reaches [OF inv this]
    obtain j where "j \<le> card (dom nds)" "reaches_root nds j k" by blast
    with mono [of j k] show ?thesis
      by (intro exI [of _ j]) (simp add: dom)
  qed
  from fin root uniq bi chain show ?thesis
    by (rule tree_invariantI)
qed

lemma tree_invariant_update:
  assumes inv: "tree_invariant (nodes t)" and st: "tree state = Some t"
    and key: "nodeId \<in> dom (nodes t)"
    and only: "patch_id p = None" "patch_parentId p = None" "patch_childIds p = None" "patch_source p = None"
    and res: "reducer env state (UPDATE_NODE nodeId p) = Inr (state', sv)"
  shows "\<exists>t'. tree state' = Some t' \<and> tree_invariant (nodes t')"
proof -
  from key obtain node where Some: "nodes t nodeId = Some node" by auto
  let ?nds' = "(nodes t)(nodeId \<mapsto> merge_node node p)"
  from Some st res have t': "tree state' = Some (t\<lparr>nodes := ?nds'\<rparr>)" by auto
  from only have same: "parentId (merge_node node p) = parentId node"
    "childIds (merge_node node p) = childIds node"
    by (simp_all add: merge_node_def)
  have "tree_invariant ?nds'"
  proof (rule tree_invariant_same_links [OF inv])
    show "dom ?nds' = dom (nodes t)" using Some by auto
  next
    fix k show "parent_of ?nds' k = parent_of (nodes t) k"
      using Some same by (simp add: parent_of_def)
  next
    fix k n assume "nodes t k = Some n"
    with Some same show "\<exists>n'. ?nds' k = Some n' \<and> childIds n' = childIds n" by auto
  qed
  with t' show ?thesis by simp
qed

section \<open>Root paths and the chat history\<close>

lemma links_append:
  "links nds par (xs @ [k]) \<longleftrightarrow>
     links nds par xs \<and> (\<exists>n. nds k = Some n \<and> parentId n = (if xs = [] then par else Some (last xs)))"
  by (induction xs arbitrary: par) (auto split: option.splits)

lemma links_dom: "links nds par path \<Longrightarrow> set path \<subseteq> dom nds"
  by (induction path arbitrary: par) (auto split: option.splits)

lemma reaches_root_path:
  "reaches_root nds j k \<Longrightarrow> \<exists>path. root_path nds k path"
proof (induction j arbitrary: k)
  case 0
  then show ?case
    by (intro exI [of _ "[k]"]) (auto simp: root_path_def parent_of_def split: option.splits)
next
  case (Suc j)
  then obtain p where p: "parent_of nds k = Some p" and r: "reaches_root nds j p"
    by (auto split: option.splits)
  from Suc.IH [OF r] obtain path where path: "root_path nds p path" by blast
  from p obtain n where n: "nds k = Some n" "parentId n = Some p"
    by (auto simp: parent_of_def split: option.splits)
  with path have "root_path nds k (path @ [k])"
    by (simp add: root_path_def links_append)
  then show ?case by blast
qed

lemma walk_links:
  "links nds par path \<Longrightarrow> [] \<notin> set path \<Longrightarrow> path \<noteq> [] \<Longrightarrow>
   walk nds (Some (last path)) acc = walk nds par (path @ acc)"
proof (induction path arbitrary: acc rule: rev_induct)
  case Nil
  then show ?case by simp
next
  case (snoc k xs)
  from snoc.prems have k: "k \<noteq> []" and xs: "links nds par xs" "[] \<notin> set xs"
    and par: "parent_of nds k = (if xs = [] then par else Some (last xs))"
    by (auto simp: links_append parent_of_def)
  show ?case
  proof (cases "xs = []")
    case True
    with k par show ?thesis by (simp add: walk_step)
  next
    case False
    with snoc.IH [OF xs False, of "k # acc"] k par show ?thesis
      by (simp add: walk_step)
  qed
qed

lemma getPathToRoot_root_path:
  assumes "root_path nds nodeId path" and "[] \<notin> set path"
  shows "getPathToRoot nodeId nds = Some path"
  using assms walk_links [of nds None path "[]"]
  by (simp add: getPathToRoot_def root_path_def walk_None)

lemma history_loop_dom:
  "set path \<subseteq> dom nds \<Longrightarrow>
   history_loop nds path msgs = Inr (msgs @ concat (map (messages_at nds) path))"
  by (induction path arbitrary: msgs) (auto simp: messages_at_def node_messages_def)

lemma tree_invariant_root_only: "tree_invariant root_only"
proof (rule tree_invariantI [of _ "''node-0''"])
  show "\<exists>j \<le> card (dom root_only). reaches_root root_only j k" if "k \<in> dom root_only" for k
    using that by (intro exI [of _ 0]) (auto simp: root_only_def root_node_def parent_of_def split: if_splits)
qed (auto simp: root_only_def root_node_def parent_of_def split: if_splits)

lemma tree_invariant_empty_id: "tree_invariant empty_id_nodes"
proof (rule tree_invariantI [of _ "[]"])
  show "\<exists>j \<le> card (dom empty_id_nodes). reaches_root empty_id_nodes j k" if "k \<in> dom empty_id_nodes" for k
    using that by (intro exI [of _ 0]) (auto simp: empty_id_nodes_def parent_of_def split: if_splits)
qed (auto simp: empty_id_nodes_def parent_of_def split: if_splits)

lemma tree_invariant_history_nodes: "tree_invariant history_nodes"
proof (rule tree_invariantI [of _ "''node-0''"])
  have card: "card (dom history_nodes) = 2" by (simp add: history_nodes_def)
  show "\<exists>j \<le> card (dom history_nodes). reaches_root history_nodes j k" if "k \<in> dom history_nodes" for k
  proof -
    from that consider "k = ''node-0''" | "k = ''node-1''"
      by (auto simp: history_nodes_def split: if_splits)
    then show ?thesis
    proof cases
      case 1
      then show ?thesis
        by (intro exI [of _ 0]) (simp add: history_nodes_def parent_of_def)
    next
      case 2
      then show ?thesis unfolding card
        by (intro exI [of _ "Suc 0"]) (simp add: history_nodes_def parent_of_def)
    qed
  qed
qed (auto simp: history_nodes_def parent_of_def split: if_splits)

text \<open>
  Claim C5, as the spec states it, for every node id present in a mapping that satisfies
  the invariant of the data model. The walk stops at an id that is the empty string, which
  JavaScript takes for false: for a well-formed one-node tree whose root has the id
  \<^verbatim>\<open>""\<close>, prompt \<^verbatim>\<open>"x"\<close> and response \<^verbatim>\<open>"y"\<close>, the root-path is \<^verbatim>\<open>[""]\<close> but
  \<^verbatim>\<open>buildChatHistory\<close> returns no message.
\<close>

theorem buildChatHistory_empty_id_counterexample:
  "tree_invariant empty_id_nodes \<and> [] \<in> dom empty_id_nodes \<and>
   root_path empty_id_nodes [] [[]] \<and>
   concat (map (messages_at empty_id_nodes) [[]]) = [(User, ''x''), (Assistant, ''y'')] \<and>
   buildChatHistory [] empty_id_nodes = Some (Inr [])"
  using tree_invariant_empty_id
  by (simp add: empty_id_nodes_def root_path_def messages_at_def node_messages_def
      buildChatHistory_def getPathToRoot_def walk_empty)

text \<open>
  Claim C5, amended: for every node id present in a well-formed mapping none of whose ids
  is the empty string, the node has a root-path, \<^verbatim>\<open>getPathToRoot\<close> returns it, and
  \<^verbatim>\<open>buildChatHistory\<close> returns exactly the non-empty prompts and responses of the nodes on
  it, in root-to-node order, each non-empty prompt tagged \<^verbatim>\<open>user\<close> directly followed by the
  non-empty response of its node tagged \<^verbatim>\<open>assistant\<close>.
\<close>

theorem buildChatHistory_root_path:
  assumes "tree_invariant nds" and "[] \<notin> dom nds" and "nodeId \<in> dom nds"
  shows "\<exists>path. root_path nds nodeId path \<and> getPathToRoot nodeId nds = Some path \<and>
     buildChatHistory nodeId nds = Some (Inr (concat (map (messages_at nds) path)))"
proof -
  from tree_invariant_reaches [OF assms(1,3)] obtain j where "reaches_root nds j nodeId" by blast
  from reaches_root_path [OF this] obtain path where path: "root_path nds nodeId path" by blast
  then have sub: "set path \<subseteq> dom nds"
    using links_dom [of nds None path] by (simp add: root_path_def)
  with assms(2) have "[] \<notin> set path" by auto
  from getPathToRoot_root_path [OF path this] have g: "getPathToRoot nodeId nds = Some path" .
  with history_loop_dom [OF sub, of "[]"]
  have "buildChatHistory nodeId nds = Some (Inr (concat (map (messages_at nds) path)))"
    by (simp add: buildChatHistory_def)
  with path g show ?thesis by blast
qed

theorem buildChatHistory_root_path_witness:
  "tree_invariant history_nodes \<and> [] \<notin> dom history_nodes \<and> ''node-1'' \<in> dom history_nodes \<and>
   getPathToRoot ''node-1'' history_nodes = Some [''node-0'', ''node-1''] \<and>
   buildChatHistory ''node-1'' history_nodes =
     Some (Inr [(User, ''x''), (Assistant, ''y''), (User, ''a''), (Assistant, ''b'')])"
proof -
  have h2: "[] \<notin> dom history_nodes" and h3: "''node-1'' \<in> dom history_nodes"
    by (simp_all add: history_nodes_def)
  have g: "getPathToRoot ''node-1'' history_nodes = Some [''node-0'', ''node-1'']"
    by (simp add: getPathToRoot_def walk_step walk_None parent_of_def history_nodes_def)
  from buildChatHistory_root_path [OF tree_invariant_history_nodes h2 h3] g
  have "buildChatHistory ''node-1'' history_nodes =
     Some (Inr (concat (map (messages_at history_nodes) [''node-0'', ''node-1''])))"
    by auto
  then have "buildChatHistory ''node-1'' history_nodes =
     Some (Inr [(User, ''x''), (Assistant, ''y''), (User, ''a''), (Assistant, ''b'')])"
    by (simp add: messages_at_def node_messages_def history_nodes_def)
  with tree_invariant_history_nodes h2 h3 g show ?thesis by simp
qed

section \<open>Preservation of the invariant\<close>

lemma branched_nodes_built:
  "createBranchNode 5 ''ab'' ''node-0'' root_only =
     Inr (root_only(''node-5-ab'' \<mapsto> \<lparr>id' = ''node-5-ab'', prompt = [], response = [],
                                       parentId = Some ''node-0'', childIds = [], source = generated\<rparr>,
                    ''node-0'' \<mapsto> root_node\<lparr>childIds := [''node-5-ab'']\<rparr>), ''node-5-ab'')"
  "createBranchNode 5 ''cd'' ''node-5-ab''
       (root_only(''node-5-ab'' \<mapsto> \<lparr>id' = ''node-5-ab'', prompt = [], response = [],
                                       parentId = Some ''node-0'', childIds = [], source = generated\<rparr>,
                    ''node-0'' \<mapsto> root_node\<lparr>childIds := [''node-5-ab'']\<rparr>)) =
     Inr (branched_nodes, ''node-5-cd'')"
  by (auto simp: createBranchNode_def new_id_5_ab new_id_5_cd Let_def root_only_def root_node_def
      branched_nodes_def fun_eq_iff)

lemma tree_invariant_branched: "tree_invariant branched_nodes"
proof -
  let ?n1 = "root_only(''node-5-ab'' \<mapsto> \<lparr>id' = ''node-5-ab'', prompt = [], response = [],
                                       parentId = Some ''node-0'', childIds = [], source = generated\<rparr>,
                    ''node-0'' \<mapsto> root_node\<lparr>childIds := [''node-5-ab'']\<rparr>)"
  have "tree_invariant ?n1"
    by (rule tree_invariant_branch [OF tree_invariant_root_only _ _ branched_nodes_built(1)])
       (simp_all add: root_only_def new_id_5_ab)
  then show ?thesis
    by (rule tree_invariant_branch [OF _ _ _ branched_nodes_built(2)])
       (simp_all add: root_only_def new_id_5_cd)
qed

text \<open>
  Claim C10, as the spec states it: \<^verbatim>\<open>createBranchNode\<close> preserves the invariant whenever
  the parent exists. The tree below is built by one import and two branch calls. A third
  call on the root within the same millisecond that draws the suffix \<^verbatim>\<open>ab\<close> again
  overwrites the node \<^verbatim>\<open>node-5-ab\<close> with a node without children: its child
  \<^verbatim>\<open>node-5-cd\<close> still names it as parent and is no longer among its \<^verbatim>\<open>childIds\<close>.
\<close>

theorem tree_invariant_collision_counterexample:
  "tree_invariant branched_nodes \<and> ''node-0'' \<in> dom branched_nodes \<and>
   (\<exists>nds'. createBranchNode 5 ''ab'' ''node-0'' branched_nodes = Inr (nds', ''node-5-ab'') \<and>
           \<not> tree_invariant nds')"
proof -
  let ?nds' = "branched_nodes(''node-5-ab'' \<mapsto> \<lparr>id' = ''node-5-ab'', prompt = [], response = [],
                                       parentId = Some ''node-0'', childIds = [], source = generated\<rparr>,
                    ''node-0'' \<mapsto> root_node\<lparr>childIds := [''node-5-ab'', ''node-5-ab'']\<rparr>)"
  have c: "createBranchNode 5 ''ab'' ''node-0'' branched_nodes = Inr (?nds', ''node-5-ab'')"
    by (simp add: createBranchNode_def new_id_5_ab Let_def branched_nodes_def root_node_def)
  have "\<not> tree_invariant ?nds'"
  proof
    assume "tree_invariant ?nds'"
    from tree_invariant_child [OF this, of "''node-5-cd''" "''node-5-ab''"]
    show False by (simp add: branched_nodes_def parent_of_def)
  qed
  moreover have "''node-0'' \<in> dom branched_nodes" by (simp add: branched_nodes_def)
  ultimately show ?thesis using c tree_invariant_branched by blast
qed

text \<open>
  Claim C10, amended: the structural invariant (exactly one node without parent; the
  \<^verbatim>\<open>parentId\<close> of every other node is a key whose node lists it in \<^verbatim>\<open>childIds\<close>; the
  parent chain of every node reaches the root in at most as many steps as there are nodes)
  holds for every tree that \<^verbatim>\<open>parseImportedJson\<close> returns, with \<^verbatim>\<open>rootId\<close> naming a node
  without parent; \<^verbatim>\<open>createBranchNode\<close> preserves it when the parent exists and the
  generated id is not yet a key of the mapping; and an \<^verbatim>\<open>UPDATE_NODE\<close> transition on a
  node id that is a key of the mapping, with a patch that touches only prompt and response,
  preserves it. (For an id that is not a key the reducer reads \<^verbatim>\<open>nodes[nodeId]\<close> through
  the prototype of the object; that case is left out here, see the note on lookups in the
  data model.)
\<close>

theorem tree_invariant_preserved:
  "(parseImportedJson raw = Inr t \<longrightarrow>
      tree_invariant (nodes t) \<and> rootId t \<in> dom (nodes t) \<and> parent_of (nodes t) (rootId t) = None) \<and>
   (tree_invariant nds \<and> parent \<in> dom nds \<and> new_id now rnd \<notin> dom nds \<longrightarrow>
      (\<exists>nds'. createBranchNode now rnd parent nds = Inr (nds', new_id now rnd) \<and> tree_invariant nds')) \<and>
   (tree state = Some tr \<and> tree_invariant (nodes tr) \<and> nodeId \<in> dom (nodes tr) \<and>
    patch_id p = None \<and> patch_parentId p = None \<and> patch_childIds p = None \<and> patch_source p = None \<longrightarrow>
      (\<exists>state' sv t'. reducer env state (UPDATE_NODE nodeId p) = Inr (state', sv) \<and>
          tree state' = Some t' \<and> tree_invariant (nodes t')))"
proof (intro conjI impI)
  assume p: "parseImportedJson raw = Inr t"
  then show "tree_invariant (nodes t)" by (rule tree_invariant_parse)
  from p obtain json md msgs where raw: "raw = Some json"
    and md: "json_metadata json = Some md" and msgs: "json_messages json = Some msgs"
    and ne: "pair_loop msgs 0 [] \<noteq> []"
    by (auto simp: parseImportedJson_def Let_def split: option.splits if_splits)
  from parse_chain_state [OF md msgs refl ne] p raw
  obtain prev where c: "chain_state (pair_loop msgs 0 []) (nodes t, prev, rootId t)" by auto
  from ne have "0 < length (pair_loop msgs 0 [])" by simp
  with c ne show "rootId t \<in> dom (nodes t)" "parent_of (nodes t) (rootId t) = None"
    by (auto simp: chain_state_def parent_of_def chain_entry_def)
next
  assume a: "tree_invariant nds \<and> parent \<in> dom nds \<and> new_id now rnd \<notin> dom nds"
  then obtain pn where pn: "nds parent = Some pn" by auto
  from a have fresh: "new_id now rnd \<notin> dom nds" and inv: "tree_invariant nds" by simp_all
  from createBranchNode_Inr [OF pn fresh] tree_invariant_branch [OF inv pn fresh]
  show "\<exists>nds'. createBranchNode now rnd parent nds = Inr (nds', new_id now rnd) \<and> tree_invariant nds'"
    by blast
next
  assume a: "tree state = Some tr \<and> tree_invariant (nodes tr) \<and> nodeId \<in> dom (nodes tr) \<and>
    patch_id p = None \<and> patch_parentId p = None \<and> patch_childIds p = None \<and> patch_source p = None"
  obtain state' sv where r: "reducer env state (UPDATE_NODE nodeId p) = Inr (state', sv)"
    using a by (cases "nodes tr nodeId") auto
  from a tree_invariant_update [OF _ _ _ _ _ _ _ r, of tr]
  have "\<exists>t'. tree state' = Some t' \<and> tree_invariant (nodes t')" by blast
  with r show "\<exists>state' sv t'. reducer env state (UPDATE_NODE nodeId p) = Inr (state', sv) \<and>
          tree state' = Some t' \<and> tree_invariant (nodes t')" by blast
qed

theorem tree_invariant_preserved_witness:
  "(\<exists>t. parseImportedJson (Some example_json) = Inr t \<and> tree_invariant (nodes t)) \<and>
   tree_invariant root_only \<and> ''node-0'' \<in> dom root_only \<and> new_id 5 ''ab'' \<notin> dom root_only \<and>
   (\<exists>nds'. createBranchNode 5 ''ab'' ''node-0'' root_only = Inr (nds', ''node-5-ab'') \<and>
           tree_invariant nds') \<and>
   tree example_state = Some example_tree \<and> ''node-0'' \<in> dom (nodes example_tree) \<and>
   (\<exists>state' sv t'. reducer example_env example_state (UPDATE_NODE ''node-0'' prompt_patch) = Inr (state', sv) \<and>
           tree state' = Some t' \<and> tree_invariant (nodes t'))"
proof -
  have h1: "json_metadata example_json = Some \<lparr>meta_title = None, meta_user = None, meta_dates = None\<rparr>"
    and h2: "json_messages example_json = Some example_messages"
    by (simp_all add: example_json_def)
  have ne: "pair_loop example_messages 0 [] \<noteq> []" by (simp add: example_pairs)
  from parse_chain_state [OF h1 h2 refl ne]
  obtain t where t: "parseImportedJson (Some example_json) = Inr t" by blast
  with tree_invariant_preserved [of "Some example_json" t]
  have a: "\<exists>t. parseImportedJson (Some example_json) = Inr t \<and> tree_invariant (nodes t)" by blast
  have b: "''node-0'' \<in> dom root_only" "new_id 5 ''ab'' \<notin> dom root_only"
    by (simp_all add: root_only_def new_id_5_ab)
  with tree_invariant_root_only tree_invariant_preserved [of _ _ root_only "''node-0''" 5 "''ab''"]
  have c: "\<exists>nds'. createBranchNode 5 ''ab'' ''node-0'' root_only = Inr (nds', ''node-5-ab'') \<and>
           tree_invariant nds'" by (simp add: new_id_5_ab)
  have d: "tree example_state = Some example_tree" "nodes example_tree = root_only"
    by (simp_all add: example_state_def example_tree_def)
  have e: "patch_id prompt_patch = None \<and> patch_parentId prompt_patch = None \<and>
      patch_childIds prompt_patch = None \<and> patch_source prompt_patch = None"
    by (simp add: prompt_patch_def)
  from d e b(1) tree_invariant_root_only
    tree_invariant_preserved [of _ _ _ _ _ _ example_state example_tree "''node-0''" prompt_patch example_env]
  have f: "\<exists>state' sv t'. reducer example_env example_state (UPDATE_NODE ''node-0'' prompt_patch) = Inr (state', sv) \<and>
           tree state' = Some t' \<and> tree_invariant (nodes t')" by simp
  from b(1) d have g: "''node-0'' \<in> dom (nodes example_tree)" by simp
  from a b c d(1) g f tree_invariant_root_only show ?thesis by blast
qed

section \<open>The tree layout\<close>

lemma ids_nonempty [simp]: "ids t \<noteq> []"
  by (cases t) simp

lemma top_in_ids [simp]: "head_id t \<in> set (ids t)"
  by (cases t) simp











lemma extends_dom: "extends pos js pos' \<Longrightarrow> dom pos' = dom pos \<union> set js"
  by (simp add: extends_def)






















end
